theory Spec2Isabelle
  imports Main "HOL-Library.Finite_Map"
begin

section \<open>Data model (src/registry/modules.ts, src/core/generateScript.ts)\<close>

text \<open>
  \<^verbatim>\<open>export type OS = "mac" | "ubuntu";\<close>
  The string the tag stands for is what a template literal \<^verbatim>\<open>${input.os}\<close> prints.
\<close>

datatype OS = mac | ubuntu

fun os_text :: "OS \<Rightarrow> string" where
  "os_text mac = ''mac''"
| "os_text ubuntu = ''ubuntu''"

text \<open>
  \<^verbatim>\<open>ModuleDef\<close> with the fields the generator reads: \<^verbatim>\<open>id\<close> (here \<open>mod_id\<close>, since
  \<open>id\<close> is the identity function of HOL), \<^verbatim>\<open>name\<close>, the optional \<^verbatim>\<open>requires\<close> and
  \<^verbatim>\<open>script\<close>, a \<^verbatim>\<open>Partial<Record<OS, string>>\<close>. The other fields (category, tags,
  iconSlug, shortDesc, suggests, inputs, defaultPolicy, installCheck,
  notSupportedReason) are never read by src/core/generateScript.ts.
\<close>

record ModuleDef =
  mod_id :: string
  name :: string
  requires :: "string list option"
  script :: "OS \<Rightarrow> string option"

text \<open>
  \<^verbatim>\<open>GenerateInput\<close>. The field \<open>vars\<close> holds the own properties of the
  \<^verbatim>\<open>Record<string, string>\<close> object.
\<close>

record GenerateInput =
  os :: OS
  selectedIds :: "string list"
  vars :: "string \<rightharpoonup> string"

text \<open>The returned object \<^verbatim>\<open>{ script, includedIds }\<close>; its \<^verbatim>\<open>script\<close> is \<open>script_text\<close> here.\<close>

record GenerateResult =
  script_text :: string
  includedIds :: "string list"

section \<open>The registry (src/registry/modules.ts)\<close>

text \<open>
  The template literals of \<^verbatim>\<open>MODULES\<close>, one constant per module and OS, in the order of
  the source. A character outside ASCII (two comments hold Korean text) is written as the
  bytes of its UTF-8 encoding; no pattern of the generator matches such a character.
\<close>

definition base_clt_mac :: string where
  \<open>base_clt_mac =
     ''\<newline>'' @
     ''echo "[CLT] Checking Xcode Command Line Tools..."\<newline>'' @
     ''if xcode-select -p >/dev/null 2>&1; then\<newline>'' @
     ''  echo "[CLT] Already installed. Skipping."\<newline>'' @
     ''else\<newline>'' @
     ''  echo "[CLT] Installing... (a popup may appear)"\<newline>'' @
     ''  xcode-select --install || true\<newline>'' @
     ''  echo "[CLT] If installer popup opened, finish it then re-run the script."\<newline>'' @
     ''fi\<newline>''\<close>

definition base_clt_ubuntu :: string where
  \<open>base_clt_ubuntu =
     ''\<newline>'' @
     ''echo "[CLT] Not applicable on Ubuntu. Skipping."\<newline>''\<close>

definition base_homebrew_mac :: string where
  \<open>base_homebrew_mac =
     ''\<newline>'' @
     ''echo "[BREW] Checking Homebrew..."\<newline>'' @
     ''if command -v brew >/dev/null 2>&1; then\<newline>'' @
     ''  echo "[BREW] Already installed. Skipping."\<newline>'' @
     ''else\<newline>'' @
     ''  echo "[BREW] Installing Homebrew..."\<newline>'' @
     ''  NONINTERACTIVE=1 /bin/bash -c "$(curl -fsSL https://raw.githubusercontent.com/Homebrew/install/HEAD/install.sh)"\<newline>'' @
     ''  # Intel Mac '' @ [CHR 0xEA, CHR 0xB8, CHR 0xB0, CHR 0xEC, CHR 0xA4, CHR 0x80] @ '': /usr/local/bin/brew\<newline>'' @
     ''  if [ -x "/usr/local/bin/brew" ]; then\<newline>'' @
     ''    echo "[BREW] Installed at /usr/local/bin/brew"\<newline>'' @
     ''  fi\<newline>'' @
     ''fi\<newline>''\<close>

definition base_homebrew_ubuntu :: string where
  \<open>base_homebrew_ubuntu =
     ''\<newline>'' @
     ''echo "[BREW] Not used on Ubuntu (apt preferred). Skipping."\<newline>''\<close>

definition base_apt_ubuntu :: string where
  \<open>base_apt_ubuntu =
     ''\<newline>'' @
     ''echo "[APT] Updating apt & installing essentials..."\<newline>'' @
     ''sudo apt-get update -y\<newline>'' @
     ''sudo apt-get install -y curl git build-essential ca-certificates\<newline>''\<close>

definition base_apt_mac :: string where
  \<open>base_apt_mac =
     ''\<newline>'' @
     ''echo "[APT] Not applicable on macOS. Skipping."\<newline>''\<close>

definition dev_git_mac :: string where
  \<open>dev_git_mac =
     ''\<newline>'' @
     ''echo "[GIT] Installing git..."\<newline>'' @
     ''if command -v git >/dev/null 2>&1; then\<newline>'' @
     ''  echo "[GIT] Already installed. Skipping."\<newline>'' @
     ''else\<newline>'' @
     ''  brew install git\<newline>'' @
     ''fi\<newline>''\<close>

definition dev_git_ubuntu :: string where
  \<open>dev_git_ubuntu =
     ''\<newline>'' @
     ''echo "[GIT] Installing git..."\<newline>'' @
     ''if command -v git >/dev/null 2>&1; then\<newline>'' @
     ''  echo "[GIT] Already installed. Skipping."\<newline>'' @
     ''else\<newline>'' @
     ''  sudo apt-get install -y git\<newline>'' @
     ''fi\<newline>''\<close>

definition dev_git_config_mac :: string where
  \<open>dev_git_config_mac =
     ''\<newline>'' @
     ''echo "[GIT-CONFIG] Setting global git identity..."\<newline>'' @
     ''git config --global user.name "{{git_name}}"\<newline>'' @
     ''git config --global user.email "{{git_email}}"\<newline>'' @
     ''git config --global init.defaultBranch main\<newline>'' @
     ''git config --global fetch.prune true\<newline>'' @
     ''git config --global core.autocrlf input\<newline>''\<close>

definition dev_git_config_ubuntu :: string where
  \<open>dev_git_config_ubuntu =
     ''\<newline>'' @
     ''echo "[GIT-CONFIG] Setting global git identity..."\<newline>'' @
     ''git config --global user.name "{{git_name}}"\<newline>'' @
     ''git config --global user.email "{{git_email}}"\<newline>'' @
     ''git config --global init.defaultBranch main\<newline>'' @
     ''git config --global fetch.prune true\<newline>'' @
     ''git config --global core.autocrlf input\<newline>''\<close>

definition lang_nvm_mac :: string where
  \<open>lang_nvm_mac =
     ''\<newline>'' @
     ''echo "[NVM] Installing nvm..."\<newline>'' @
     ''if [ -s "$HOME/.nvm/nvm.sh" ]; then\<newline>'' @
     ''  echo "[NVM] Already installed. Skipping."\<newline>'' @
     ''else\<newline>'' @
     ''  curl -fsSL https://raw.githubusercontent.com/nvm-sh/nvm/v0.40.3/install.sh | bash\<newline>'' @
     ''fi\<newline>'' @
     ''export NVM_DIR="$HOME/.nvm"\<newline>'' @
     ''[ -s "$NVM_DIR/nvm.sh" ] && . "$NVM_DIR/nvm.sh"\<newline>''\<close>

definition lang_nvm_ubuntu :: string where
  \<open>lang_nvm_ubuntu =
     ''\<newline>'' @
     ''echo "[NVM] Installing nvm..."\<newline>'' @
     ''if [ -s "$HOME/.nvm/nvm.sh" ]; then\<newline>'' @
     ''  echo "[NVM] Already installed. Skipping."\<newline>'' @
     ''else\<newline>'' @
     ''  curl -fsSL https://raw.githubusercontent.com/nvm-sh/nvm/v0.40.3/install.sh | bash\<newline>'' @
     ''fi\<newline>'' @
     ''export NVM_DIR="$HOME/.nvm"\<newline>'' @
     ''[ -s "$NVM_DIR/nvm.sh" ] && . "$NVM_DIR/nvm.sh"\<newline>''\<close>

definition lang_node_lts_mac :: string where
  \<open>lang_node_lts_mac =
     ''\<newline>'' @
     ''echo "[NODE] Installing Node LTS via nvm..."\<newline>'' @
     ''export NVM_DIR="$HOME/.nvm"\<newline>'' @
     ''[ -s "$NVM_DIR/nvm.sh" ] && . "$NVM_DIR/nvm.sh"\<newline>'' @
     ''nvm install --lts\<newline>'' @
     ''nvm use --lts\<newline>'' @
     ''nvm alias default lts/*\<newline>'' @
     ''echo "[NODE] node=$(node -v) npm=$(npm -v)"\<newline>''\<close>

definition lang_node_lts_ubuntu :: string where
  \<open>lang_node_lts_ubuntu =
     ''\<newline>'' @
     ''echo "[NODE] Installing Node LTS via nvm..."\<newline>'' @
     ''export NVM_DIR="$HOME/.nvm"\<newline>'' @
     ''[ -s "$NVM_DIR/nvm.sh" ] && . "$NVM_DIR/nvm.sh"\<newline>'' @
     ''nvm install --lts\<newline>'' @
     ''nvm use --lts\<newline>'' @
     ''nvm alias default lts/*\<newline>'' @
     ''echo "[NODE] node=$(node -v) npm=$(npm -v)"\<newline>''\<close>

definition dev_vscode_mac :: string where
  \<open>dev_vscode_mac =
     ''\<newline>'' @
     ''echo "[VSCODE] Installing VS Code..."\<newline>'' @
     ''if brew list --cask visual-studio-code >/dev/null 2>&1; then\<newline>'' @
     ''  echo "[VSCODE] Already installed. Skipping."\<newline>'' @
     ''else\<newline>'' @
     ''  brew install --cask visual-studio-code\<newline>'' @
     ''fi\<newline>''\<close>

definition dev_vscode_ubuntu :: string where
  \<open>dev_vscode_ubuntu =
     ''\<newline>'' @
     ''echo "[VSCODE] Installing VS Code..."\<newline>'' @
     ''if command -v code >/dev/null 2>&1; then\<newline>'' @
     ''  echo "[VSCODE] Already installed. Skipping."\<newline>'' @
     ''else\<newline>'' @
     ''  sudo snap install --classic code || true\<newline>'' @
     ''  if ! command -v code >/dev/null 2>&1; then\<newline>'' @
     ''    echo "[VSCODE] Snap failed. Please install VS Code manually or via apt repo."\<newline>'' @
     ''  fi\<newline>'' @
     ''fi\<newline>''\<close>

definition dev_gh_cli_mac :: string where
  \<open>dev_gh_cli_mac =
     ''\<newline>'' @
     ''echo "[GH] Installing GitHub CLI..."\<newline>'' @
     ''if command -v gh >/dev/null 2>&1; then\<newline>'' @
     ''  echo "[GH] Already installed. Skipping."\<newline>'' @
     ''else\<newline>'' @
     ''  brew install gh\<newline>'' @
     ''fi\<newline>''\<close>

definition dev_gh_cli_ubuntu :: string where
  \<open>dev_gh_cli_ubuntu =
     ''\<newline>'' @
     ''echo "[GH] Installing GitHub CLI..."\<newline>'' @
     ''if command -v gh >/dev/null 2>&1; then\<newline>'' @
     ''  echo "[GH] Already installed. Skipping."\<newline>'' @
     ''else\<newline>'' @
     ''  sudo apt-get install -y gh || true\<newline>'' @
     ''  if ! command -v gh >/dev/null 2>&1; then\<newline>'' @
     ''    echo "[GH] apt install failed. Please follow GitHub CLI official install."\<newline>'' @
     ''  fi\<newline>'' @
     ''fi\<newline>''\<close>

definition dev_github_ssh_mac :: string where
  \<open>dev_github_ssh_mac =
     ''\<newline>'' @
     ''echo "[SSH] Setting up GitHub SSH key..."\<newline>'' @
     ''mkdir -p "$HOME/.ssh"\<newline>'' @
     ''chmod 700 "$HOME/.ssh"\<newline>'' @
     ''\<newline>'' @
     ''if [ -f "$HOME/.ssh/id_ed25519" ]; then\<newline>'' @
     ''  echo "[SSH] Key already exists. Skipping keygen."\<newline>'' @
     ''else\<newline>'' @
     ''  ssh-keygen -t ed25519 -C "{{ssh_email}}" -f "$HOME/.ssh/id_ed25519" -N ""\<newline>'' @
     ''fi\<newline>'' @
     ''\<newline>'' @
     ''# Start agent\<newline>'' @
     ''eval "$(ssh-agent -s)" >/dev/null\<newline>'' @
     ''ssh-add "$HOME/.ssh/id_ed25519" >/dev/null\<newline>'' @
     ''\<newline>'' @
     ''# Add github.com to known_hosts (avoid interactive prompt)\<newline>'' @
     ''ssh-keyscan -t ed25519 github.com >> "$HOME/.ssh/known_hosts" 2>/dev/null || true\<newline>'' @
     ''chmod 600 "$HOME/.ssh/known_hosts"\<newline>'' @
     ''\<newline>'' @
     ''echo "[SSH] Public key:"\<newline>'' @
     ''cat "$HOME/.ssh/id_ed25519.pub"\<newline>''\<close>

definition dev_github_ssh_ubuntu :: string where
  \<open>dev_github_ssh_ubuntu =
     ''\<newline>'' @
     ''echo "[SSH] Setting up GitHub SSH key..."\<newline>'' @
     ''mkdir -p "$HOME/.ssh"\<newline>'' @
     ''chmod 700 "$HOME/.ssh"\<newline>'' @
     ''\<newline>'' @
     ''if [ -f "$HOME/.ssh/id_ed25519" ]; then\<newline>'' @
     ''  echo "[SSH] Key already exists. Skipping keygen."\<newline>'' @
     ''else\<newline>'' @
     ''  ssh-keygen -t ed25519 -C "{{ssh_email}}" -f "$HOME/.ssh/id_ed25519" -N ""\<newline>'' @
     ''fi\<newline>'' @
     ''\<newline>'' @
     ''eval "$(ssh-agent -s)" >/dev/null\<newline>'' @
     ''ssh-add "$HOME/.ssh/id_ed25519" >/dev/null\<newline>'' @
     ''\<newline>'' @
     ''ssh-keyscan -t ed25519 github.com >> "$HOME/.ssh/known_hosts" 2>/dev/null || true\<newline>'' @
     ''chmod 600 "$HOME/.ssh/known_hosts"\<newline>'' @
     ''\<newline>'' @
     ''echo "[SSH] Public key:"\<newline>'' @
     ''cat "$HOME/.ssh/id_ed25519.pub"\<newline>''\<close>

definition cli_ripgrep_mac :: string where
  \<open>cli_ripgrep_mac =
     ''\<newline>'' @
     ''echo "[RG] Installing ripgrep..."\<newline>'' @
     ''command -v rg >/dev/null 2>&1 || brew install ripgrep\<newline>''\<close>

definition cli_ripgrep_ubuntu :: string where
  \<open>cli_ripgrep_ubuntu =
     ''\<newline>'' @
     ''echo "[RG] Installing ripgrep..."\<newline>'' @
     ''command -v rg >/dev/null 2>&1 || sudo apt-get install -y ripgrep\<newline>''\<close>

definition cli_jq_mac :: string where
  \<open>cli_jq_mac =
     ''\<newline>'' @
     ''echo "[JQ] Installing jq..."\<newline>'' @
     ''command -v jq >/dev/null 2>&1 || brew install jq\<newline>''\<close>

definition cli_jq_ubuntu :: string where
  \<open>cli_jq_ubuntu =
     ''\<newline>'' @
     ''echo "[JQ] Installing jq..."\<newline>'' @
     ''command -v jq >/dev/null 2>&1 || sudo apt-get install -y jq\<newline>''\<close>

definition cli_fzf_mac :: string where
  \<open>cli_fzf_mac =
     ''\<newline>'' @
     ''echo "[FZF] Installing fzf..."\<newline>'' @
     ''command -v fzf >/dev/null 2>&1 || brew install fzf\<newline>''\<close>

definition cli_fzf_ubuntu :: string where
  \<open>cli_fzf_ubuntu =
     ''\<newline>'' @
     ''echo "[FZF] Installing fzf..."\<newline>'' @
     ''command -v fzf >/dev/null 2>&1 || sudo apt-get install -y fzf\<newline>''\<close>

definition cli_bat_mac :: string where
  \<open>cli_bat_mac =
     ''\<newline>'' @
     ''echo "[BAT] Installing bat..."\<newline>'' @
     ''command -v bat >/dev/null 2>&1 || brew install bat\<newline>''\<close>

definition cli_bat_ubuntu :: string where
  \<open>cli_bat_ubuntu =
     ''\<newline>'' @
     ''echo "[BAT] Installing bat..."\<newline>'' @
     ''if command -v bat >/dev/null 2>&1; then\<newline>'' @
     ''  echo "[BAT] Already installed. Skipping."\<newline>'' @
     ''else\<newline>'' @
     ''  sudo apt-get install -y bat || true\<newline>'' @
     ''  # Ubuntu'' @ [CHR 0xEC, CHR 0x97, CHR 0x90, CHR 0xEC, CHR 0x84, CHR 0x9C, CHR 0xEB, CHR 0x8A, CHR 0x94] @ '' batcat'' @ [CHR 0xEC, CHR 0x9D, CHR 0xBC] @ '' '' @ [CHR 0xEC, CHR 0x88, CHR 0x98] @ '' '' @ [CHR 0xEC, CHR 0x9E, CHR 0x88, CHR 0xEC, CHR 0x9D, CHR 0x8C] @ ''\<newline>'' @
     ''fi\<newline>''\<close>

definition cli_eza_mac :: string where
  \<open>cli_eza_mac =
     ''\<newline>'' @
     ''echo "[EZA] Installing eza..."\<newline>'' @
     ''command -v eza >/dev/null 2>&1 || brew install eza\<newline>''\<close>

definition cli_eza_ubuntu :: string where
  \<open>cli_eza_ubuntu =
     ''\<newline>'' @
     ''echo "[EZA] Installing eza..."\<newline>'' @
     ''command -v eza >/dev/null 2>&1 || sudo apt-get install -y eza || true\<newline>''\<close>

definition shell_starship_mac :: string where
  \<open>shell_starship_mac =
     ''\<newline>'' @
     ''echo "[STARSHIP] Installing starship..."\<newline>'' @
     ''command -v starship >/dev/null 2>&1 || brew install starship\<newline>'' @
     ''echo '[ -x "$(command -v starship)" ] && eval "$(starship init zsh)"' >> "$HOME/.zshrc"\<newline>''\<close>

definition shell_starship_ubuntu :: string where
  \<open>shell_starship_ubuntu =
     ''\<newline>'' @
     ''echo "[STARSHIP] Installing starship..."\<newline>'' @
     ''command -v starship >/dev/null 2>&1 || curl -fsSL https://starship.rs/install.sh | sh -s -- -y\<newline>'' @
     ''echo '[ -x "$(command -v starship)" ] && eval "$(starship init bash)"' >> "$HOME/.bashrc"\<newline>''\<close>

definition lang_python3_mac :: string where
  \<open>lang_python3_mac =
     ''\<newline>'' @
     ''echo "[PY] Installing python3..."\<newline>'' @
     ''command -v python3 >/dev/null 2>&1 || brew install python\<newline>''\<close>

definition lang_python3_ubuntu :: string where
  \<open>lang_python3_ubuntu =
     ''\<newline>'' @
     ''echo "[PY] Installing python3..."\<newline>'' @
     ''command -v python3 >/dev/null 2>&1 || sudo apt-get install -y python3 python3-pip\<newline>''\<close>

definition lang_uv_mac :: string where
  \<open>lang_uv_mac =
     ''\<newline>'' @
     ''echo "[UV] Installing uv..."\<newline>'' @
     ''command -v uv >/dev/null 2>&1 || curl -fsSL https://astral.sh/uv/install.sh | sh\<newline>''\<close>

definition lang_uv_ubuntu :: string where
  \<open>lang_uv_ubuntu =
     ''\<newline>'' @
     ''echo "[UV] Installing uv..."\<newline>'' @
     ''command -v uv >/dev/null 2>&1 || curl -fsSL https://astral.sh/uv/install.sh | sh\<newline>''\<close>

definition verify_summary_mac :: string where
  \<open>verify_summary_mac =
     ''\<newline>'' @
     ''echo "------------------------------"\<newline>'' @
     ''echo "[VERIFY] Versions summary"\<newline>'' @
     ''command -v brew >/dev/null 2>&1 && brew --version | head -n 1 || true\<newline>'' @
     ''command -v git >/dev/null 2>&1 && git --version || true\<newline>'' @
     ''command -v node >/dev/null 2>&1 && node -v || true\<newline>'' @
     ''command -v npm >/dev/null 2>&1 && npm -v || true\<newline>'' @
     ''command -v python3 >/dev/null 2>&1 && python3 --version || true\<newline>'' @
     ''command -v rg >/dev/null 2>&1 && rg --version | head -n 1 || true\<newline>'' @
     ''command -v jq >/dev/null 2>&1 && jq --version || true\<newline>'' @
     ''echo "------------------------------"\<newline>''\<close>

definition verify_summary_ubuntu :: string where
  \<open>verify_summary_ubuntu =
     ''\<newline>'' @
     ''echo "------------------------------"\<newline>'' @
     ''echo "[VERIFY] Versions summary"\<newline>'' @
     ''command -v git >/dev/null 2>&1 && git --version || true\<newline>'' @
     ''command -v node >/dev/null 2>&1 && node -v || true\<newline>'' @
     ''command -v npm >/dev/null 2>&1 && npm -v || true\<newline>'' @
     ''command -v python3 >/dev/null 2>&1 && python3 --version || true\<newline>'' @
     ''command -v rg >/dev/null 2>&1 && rg --version | head -n 1 || true\<newline>'' @
     ''command -v jq >/dev/null 2>&1 && jq --version || true\<newline>'' @
     ''echo "------------------------------"\<newline>''\<close>

definition MODULES :: "ModuleDef list" where
  "MODULES = [
     \<lparr>mod_id = ''base.clt'', name = ''Xcode Command Line Tools'', requires = None,
      script = [mac \<mapsto> base_clt_mac, ubuntu \<mapsto> base_clt_ubuntu]\<rparr>,
     \<lparr>mod_id = ''base.homebrew'', name = ''Homebrew'', requires = Some [''base.clt''],
      script = [mac \<mapsto> base_homebrew_mac, ubuntu \<mapsto> base_homebrew_ubuntu]\<rparr>,
     \<lparr>mod_id = ''base.apt'', name = ''apt update + essentials'', requires = None,
      script = [ubuntu \<mapsto> base_apt_ubuntu, mac \<mapsto> base_apt_mac]\<rparr>,
     \<lparr>mod_id = ''dev.git'', name = ''Git'', requires = Some [''base.homebrew''],
      script = [mac \<mapsto> dev_git_mac, ubuntu \<mapsto> dev_git_ubuntu]\<rparr>,
     \<lparr>mod_id = ''dev.git_config'', name = ''Git: user.name / user.email'', requires = Some [''dev.git''],
      script = [mac \<mapsto> dev_git_config_mac, ubuntu \<mapsto> dev_git_config_ubuntu]\<rparr>,
     \<lparr>mod_id = ''lang.nvm'', name = ''nvm (Node Version Manager)'', requires = Some [''dev.git''],
      script = [mac \<mapsto> lang_nvm_mac, ubuntu \<mapsto> lang_nvm_ubuntu]\<rparr>,
     \<lparr>mod_id = ''lang.node_lts'', name = ''Node.js (LTS via nvm)'', requires = Some [''lang.nvm''],
      script = [mac \<mapsto> lang_node_lts_mac, ubuntu \<mapsto> lang_node_lts_ubuntu]\<rparr>,
     \<lparr>mod_id = ''dev.vscode'', name = ''VS Code'', requires = Some [''base.homebrew''],
      script = [mac \<mapsto> dev_vscode_mac, ubuntu \<mapsto> dev_vscode_ubuntu]\<rparr>,
     \<lparr>mod_id = ''dev.gh_cli'', name = ''GitHub CLI (gh)'', requires = Some [''base.homebrew''],
      script = [mac \<mapsto> dev_gh_cli_mac, ubuntu \<mapsto> dev_gh_cli_ubuntu]\<rparr>,
     \<lparr>mod_id = ''dev.github_ssh'', name = ''GitHub SSH Key (ed25519)'', requires = None,
      script = [mac \<mapsto> dev_github_ssh_mac, ubuntu \<mapsto> dev_github_ssh_ubuntu]\<rparr>,
     \<lparr>mod_id = ''cli.ripgrep'', name = ''ripgrep (rg)'', requires = Some [''base.homebrew''],
      script = [mac \<mapsto> cli_ripgrep_mac, ubuntu \<mapsto> cli_ripgrep_ubuntu]\<rparr>,
     \<lparr>mod_id = ''cli.jq'', name = ''jq'', requires = Some [''base.homebrew''],
      script = [mac \<mapsto> cli_jq_mac, ubuntu \<mapsto> cli_jq_ubuntu]\<rparr>,
     \<lparr>mod_id = ''cli.fzf'', name = ''fzf'', requires = Some [''base.homebrew''],
      script = [mac \<mapsto> cli_fzf_mac, ubuntu \<mapsto> cli_fzf_ubuntu]\<rparr>,
     \<lparr>mod_id = ''cli.bat'', name = ''bat'', requires = Some [''base.homebrew''],
      script = [mac \<mapsto> cli_bat_mac, ubuntu \<mapsto> cli_bat_ubuntu]\<rparr>,
     \<lparr>mod_id = ''cli.eza'', name = ''eza'', requires = Some [''base.homebrew''],
      script = [mac \<mapsto> cli_eza_mac, ubuntu \<mapsto> cli_eza_ubuntu]\<rparr>,
     \<lparr>mod_id = ''shell.starship'', name = ''Starship prompt'', requires = Some [''base.homebrew''],
      script = [mac \<mapsto> shell_starship_mac, ubuntu \<mapsto> shell_starship_ubuntu]\<rparr>,
     \<lparr>mod_id = ''lang.python3'', name = ''Python3'', requires = Some [''base.homebrew''],
      script = [mac \<mapsto> lang_python3_mac, ubuntu \<mapsto> lang_python3_ubuntu]\<rparr>,
     \<lparr>mod_id = ''lang.uv'', name = ''uv (fast Python package manager)'', requires = Some [''lang.python3''],
      script = [mac \<mapsto> lang_uv_mac, ubuntu \<mapsto> lang_uv_ubuntu]\<rparr>,
     \<lparr>mod_id = ''verify.summary'', name = ''Verify: print versions summary'', requires = None,
      script = [mac \<mapsto> verify_summary_mac, ubuntu \<mapsto> verify_summary_ubuntu]\<rparr>]"

section \<open>Registry accessor\<close>

text \<open>
  \<^verbatim>\<open>new Map(MODULES.map((m) => [m.id, m]))\<close>: the entries are set one after the other, so
  the last module of a given id wins. \<open>mapByIdOf\<close> takes the module list as a parameter;
  the function \<^verbatim>\<open>mapById\<close> of the source is \<open>mapByIdOf MODULES\<close>.
\<close>

type_synonym index = "(string, ModuleDef) fmap"

definition mapByIdOf :: "ModuleDef list \<Rightarrow> index" where
  "mapByIdOf ms = fold (\<lambda>m byId. fmupd (mod_id m) m byId) ms fmempty"

definition mapById :: index where
  "mapById = mapByIdOf MODULES"

section \<open>Dependency resolver\<close>

text \<open>\<^verbatim>\<open>mod.requires ?? []\<close>\<close>

definition requires_or_empty :: "ModuleDef \<Rightarrow> string list" where
  "requires_or_empty m = (case requires m of None \<Rightarrow> [] | Some deps \<Rightarrow> deps)"

text \<open>
  The closure \<^verbatim>\<open>dfs\<close> of \<^verbatim>\<open>resolveWithDeps\<close> mutates the set \<^verbatim>\<open>visited\<close> and the array
  \<^verbatim>\<open>out\<close>; the model passes the pair of them and returns it updated. \<open>dfs_all\<close> is the
  loop \<^verbatim>\<open>for (const x of xs) dfs(x)\<close>, which the source runs over \<^verbatim>\<open>mod.requires ?? []\<close>
  inside \<^verbatim>\<open>dfs\<close> and over \<^verbatim>\<open>ids\<close> at the top.
\<close>

type_synonym dfs_state = "string set \<times> string list"

function dfs :: "index \<Rightarrow> string \<Rightarrow> dfs_state \<Rightarrow> dfs_state"
  and dfs_all :: "index \<Rightarrow> string list \<Rightarrow> dfs_state \<Rightarrow> dfs_state"
where
  "dfs byId i (visited, out) =
     (if i \<in> visited then (visited, out)
      else case fmlookup byId i of
             None \<Rightarrow> (insert i visited, out)
           | Some m \<Rightarrow>
               (case dfs_all byId (requires_or_empty m) (insert i visited, out) of
                  (visited', out') \<Rightarrow> (visited', out' @ [i])))"
| "dfs_all byId [] s = s"
| "dfs_all byId (dep # deps) s = dfs_all byId deps (dfs byId dep s)"
  by pat_completeness auto

text \<open>
  Termination: a call of \<open>dfs\<close> that recurses has put a key of the index into
  \<open>visited\<close> that was not there, and the index has finitely many keys. The nested
  call needs that \<open>dfs\<close> never removes an id from \<open>visited\<close>, proved first on the
  domain of the recursion.
\<close>

lemma dfs_visited_grows_dom:
  "dfs_dfs_all_dom (Inl (byId, i, s)) \<Longrightarrow> fst s \<subseteq> fst (dfs byId i s)"
  "dfs_dfs_all_dom (Inr (byId, ds, s)) \<Longrightarrow> fst s \<subseteq> fst (dfs_all byId ds s)"
proof (induction byId i s and byId ds s rule: dfs_dfs_all.pinduct)
  case (1 byId i visited out)
  then show ?case
    by (auto simp: dfs.psimps split: option.splits prod.splits)
next
  case (2 byId s)
  then show ?case by (simp add: dfs_all.psimps)
next
  case (3 byId dep deps s)
  then show ?case by (auto simp: dfs_all.psimps)
qed

definition dfs_measure :: "index \<times> string \<times> dfs_state + index \<times> string list \<times> dfs_state \<Rightarrow> nat \<times> nat" where
  "dfs_measure x =
     (case x of
        Inl (byId, i, s) \<Rightarrow> (card (fmdom' byId - fst s), 0)
      | Inr (byId, ds, s) \<Rightarrow> (card (fmdom' byId - fst s), Suc (length ds)))"

lemma dfs_terminates: "All dfs_dfs_all_dom"
proof (relation "inv_image (less_than <*lex*> less_than) dfs_measure", goal_cases)
  case 1
  show ?case by (intro wf_inv_image wf_lex_prod wf_less_than)
next
  case (2 byId i visited out m)
  then have "i \<in> fmdom' byId - visited" by (auto simp: fmdom'I)
  then have "card (fmdom' byId - insert i visited) < card (fmdom' byId - visited)"
    by (metis Diff_insert card_Diff1_less finite_Diff finite_fmdom')
  then show ?case by (simp add: dfs_measure_def)
next
  case (3 byId dep deps s)
  then show ?case by (simp add: dfs_measure_def)
next
  case (4 byId dep deps s)
  then have "fst s \<subseteq> fst (dfs byId dep s)" by (rule dfs_visited_grows_dom)
  then have "card (fmdom' byId - fst (dfs byId dep s)) \<le> card (fmdom' byId - fst s)"
    by (intro card_mono) auto
  then show ?case by (auto simp: dfs_measure_def)
qed

termination dfs
  by (rule dfs_terminates)

declare dfs.simps [simp del]

definition resolveWithDeps :: "string list \<Rightarrow> index \<Rightarrow> string list" where
  "resolveWithDeps ids byId = snd (dfs_all byId ids ({}, []))"

text \<open>
  \<^verbatim>\<open>uniqueKeepOrder\<close>: the loop over \<^verbatim>\<open>ids\<close> with the set \<^verbatim>\<open>s\<close> and the array \<^verbatim>\<open>r\<close>.
\<close>

fun uniqueKeepOrder_loop :: "string list \<Rightarrow> string set \<times> string list \<Rightarrow> string set \<times> string list" where
  "uniqueKeepOrder_loop [] (s, r) = (s, r)"
| "uniqueKeepOrder_loop (x # xs) (s, r) =
     (if x \<in> s then uniqueKeepOrder_loop xs (s, r)
      else uniqueKeepOrder_loop xs (insert x s, r @ [x]))"

definition uniqueKeepOrder :: "string list \<Rightarrow> string list" where
  "uniqueKeepOrder ids = snd (uniqueKeepOrder_loop ids ({}, []))"


section \<open>Variable substitution\<close>

text \<open>
  \<^verbatim>\<open>v.replace(/c/g, rep)\<close> for a pattern that is the one character \<open>c\<close> and a
  replacement string without a \<^verbatim>\<open>$\<close> pattern: every \<open>c\<close> becomes \<open>rep\<close>. (The
  replacement \<^verbatim>\<open>"\\$"\<close> ends in a dollar sign that no pattern character follows, so it
  stands for itself.)
\<close>

definition replaceAll :: "char \<Rightarrow> string \<Rightarrow> string \<Rightarrow> string" where
  "replaceAll c rep v = concat (map (\<lambda>x. if x = c then rep else [x]) v)"

definition backslash :: char where "backslash = CHR 0x5C"
definition dquote :: char where "dquote = CHR 0x22"
definition dollar :: char where "dollar = CHR 0x24"
definition backtick :: char where "backtick = CHR 0x60"

definition escapeForDoubleQuotes :: "string \<Rightarrow> string" where
  "escapeForDoubleQuotes v =
     replaceAll backtick [backslash, backtick]
       (replaceAll dollar [backslash, dollar]
         (replaceAll dquote [backslash, dquote]
           (replaceAll backslash [backslash, backslash] v)))"

text \<open>
  The regular expression \<^verbatim>\<open>/\{\{([a-zA-Z0-9_]+)\}\}/g\<close>. \<open>isIdentChar\<close> is the class
  \<^verbatim>\<open>[a-zA-Z0-9_]\<close>. \<open>matchToken s\<close> is the match that starts at the first character of
  \<open>s\<close>: the captured key and the text after the match. A closing brace is not in the
  class, so the greedy \<^verbatim>\<open>+\<close> takes the whole run of class characters and no shorter
  run can be followed by \<^verbatim>\<open>}}\<close>.
\<close>

definition isIdentChar :: "char \<Rightarrow> bool" where
  "isIdentChar c =
     (let n = (of_char c :: nat)
      in (97 \<le> n \<and> n \<le> 122) \<or> (65 \<le> n \<and> n \<le> 90) \<or> (48 \<le> n \<and> n \<le> 57) \<or> n = 95)"

definition matchToken :: "string \<Rightarrow> (string \<times> string) option" where
  "matchToken s =
     (case s of
        c1 # c2 # t \<Rightarrow>
          if c1 = CHR ''{'' \<and> c2 = CHR ''{'' then
            (let key = takeWhile isIdentChar t; rest = dropWhile isIdentChar t
             in if key \<noteq> [] \<and> take 2 rest = ''}}'' then Some (key, drop 2 rest) else None)
          else None
      | _ \<Rightarrow> None)"

lemma matchToken_shorter: "matchToken s = Some (key, rest) \<Longrightarrow> length rest < length s"
proof -
  assume a: "matchToken s = Some (key, rest)"
  then obtain t where s: "s = CHR ''{'' # CHR ''{'' # t" and r: "rest = drop 2 (dropWhile isIdentChar t)"
    by (auto simp: matchToken_def Let_def split: list.splits if_splits)
  have "length (dropWhile isIdentChar t) \<le> length t" by (rule length_dropWhile_le)
  then show ?thesis using s r by simp
qed

text \<open>
  \<^verbatim>\<open>String.prototype.replace\<close> with a global pattern first collects the matches, scanning
  from the left and resuming after each match, and then builds the result from the text
  between the matches and the replacement of each match. \<open>segments\<close> is the first step:
  the template cut into its matches (\<open>Placeholder key\<close>) and the characters outside them.
\<close>

datatype segment = Lit char | Placeholder string

function segments :: "string \<Rightarrow> segment list" where
  "segments [] = []"
| "segments (c # cs) =
     (case matchToken (c # cs) of
        Some (key, rest) \<Rightarrow> Placeholder key # segments rest
      | None \<Rightarrow> Lit c # segments cs)"
  by pat_completeness auto
termination
  by (relation "measure length") (auto dest: matchToken_shorter)

declare segments.simps(2) [simp del]

text \<open>
  \<^verbatim>\<open>vars[key]\<close> reads a property of a plain object: an own property if there is one, else
  the property of that name inherited from \<^verbatim>\<open>Object.prototype\<close>, else \<^verbatim>\<open>undefined\<close>.
  The own properties of a \<^verbatim>\<open>Record<string, string>\<close> are strings; the inherited ones are
  functions (and, for \<^verbatim>\<open>__proto__\<close>, the prototype object), none of them a string.
\<close>

definition objectPrototypeKeys :: "string list" where
  "objectPrototypeKeys =
     [''constructor'', ''hasOwnProperty'', ''isPrototypeOf'', ''propertyIsEnumerable'',
      ''toLocaleString'', ''toString'', ''valueOf'', ''__proto__'',
      ''__defineGetter__'', ''__defineSetter__'', ''__lookupGetter__'', ''__lookupSetter__'']"

datatype jsvalue = JSUndefined | JSString string | JSObject

definition getProperty :: "(string \<rightharpoonup> string) \<Rightarrow> string \<Rightarrow> jsvalue" where
  "getProperty obj key =
     (case obj key of
        Some v \<Rightarrow> JSString v
      | None \<Rightarrow> if key \<in> set objectPrototypeKeys then JSObject else JSUndefined)"

text \<open>
  The callback of \<^verbatim>\<open>applyVars\<close>: \<^verbatim>\<open>const raw = vars[key] ?? ""; return
  escapeForDoubleQuotes(raw)\<close>. On a value that is not a string, \<^verbatim>\<open>v.replace\<close> is
  \<^verbatim>\<open>undefined\<close> and calling it throws a TypeError.
\<close>

datatype error = TypeError

definition replacement :: "(string \<rightharpoonup> string) \<Rightarrow> string \<Rightarrow> error + string" where
  "replacement vs key =
     (case getProperty vs key of
        JSUndefined \<Rightarrow> Inr (escapeForDoubleQuotes [])
      | JSString v \<Rightarrow> Inr (escapeForDoubleQuotes v)
      | JSObject \<Rightarrow> Inl TypeError)"

fun render :: "(string \<rightharpoonup> string) \<Rightarrow> segment list \<Rightarrow> error + string" where
  "render vs [] = Inr []"
| "render vs (Lit c # ss) =
     (case render vs ss of Inl e \<Rightarrow> Inl e | Inr out \<Rightarrow> Inr (c # out))"
| "render vs (Placeholder key # ss) =
     (case replacement vs key of
        Inl e \<Rightarrow> Inl e
      | Inr v \<Rightarrow> (case render vs ss of Inl e \<Rightarrow> Inl e | Inr out \<Rightarrow> Inr (v @ out)))"

definition applyVars :: "string \<Rightarrow> (string \<rightharpoonup> string) \<Rightarrow> error + string" where
  "applyVars template vs = render vs (segments template)"

section \<open>Script assembler\<close>

text \<open>The template literals of \<^verbatim>\<open>generateScript\<close>.\<close>

definition header :: "OS \<Rightarrow> string" where
  \<open>header t =
     ''#!/usr/bin/env bash\<newline>'' @
     ''set -e\<newline>'' @
     ''\<newline>'' @
     ''echo "===================================="\<newline>'' @
     ''echo "AI Lab Install Script Builder - RUN"\<newline>'' @
     ''echo "OS: '' @ os_text t @ ''"\<newline>'' @
     ''echo "===================================="\<newline>''\<close>

definition skipNotice :: "ModuleDef \<Rightarrow> OS \<Rightarrow> string" where
  \<open>skipNotice m t = ''echo "[SKIP] '' @ name m @ '' (not supported on '' @ os_text t @ '')"''\<close>

definition banner :: "ModuleDef \<Rightarrow> string" where
  \<open>banner m =
     ''\<newline># --------------------------------------------\<newline># '' @
     name m @ '' ('' @ mod_id m @ '')\<newline># --------------------------------------------\<newline>''\<close>

definition footer :: string where
  \<open>footer =
     ''\<newline>echo "===================================="\<newline>'' @
     ''echo "[DONE] Script finished."\<newline>'' @
     ''echo "===================================="\<newline>''\<close>

text \<open>
  The loop \<^verbatim>\<open>for (const id of ordered)\<close> over the array \<^verbatim>\<open>blocks\<close>. The test
  \<^verbatim>\<open>if (!s)\<close> on \<^verbatim>\<open>mod.script[input.os]\<close> holds for \<^verbatim>\<open>undefined\<close> and for the empty
  string. An exception of \<^verbatim>\<open>applyVars\<close> leaves the loop and the function.
\<close>

fun emitBlocks :: "index \<Rightarrow> GenerateInput \<Rightarrow> string list \<Rightarrow> string list \<Rightarrow> error + string list" where
  "emitBlocks byId input [] blocks = Inr blocks"
| "emitBlocks byId input (i # ids) blocks =
     (case fmlookup byId i of
        None \<Rightarrow> emitBlocks byId input ids blocks
      | Some m \<Rightarrow>
          (case script m (os input) of
             None \<Rightarrow> emitBlocks byId input ids (blocks @ [skipNotice m (os input)])
           | Some s \<Rightarrow>
               if s = [] then emitBlocks byId input ids (blocks @ [skipNotice m (os input)])
               else (case applyVars s (vars input) of
                       Inl e \<Rightarrow> Inl e
                     | Inr text \<Rightarrow> emitBlocks byId input ids (blocks @ [banner m, text]))))"

text \<open>\<^verbatim>\<open>blocks.join("\n")\<close>\<close>

fun join :: "string \<Rightarrow> string list \<Rightarrow> string" where
  "join sep [] = []"
| "join sep [x] = x"
| "join sep (x # y # ys) = x @ sep @ join sep (y # ys)"

text \<open>
  \<^verbatim>\<open>generateScript\<close> after its first line \<^verbatim>\<open>const byId = mapById()\<close>, as a function of
  the index.
\<close>

definition generateScriptWith :: "index \<Rightarrow> GenerateInput \<Rightarrow> error + GenerateResult" where
  "generateScriptWith byId input =
     (let withDeps = resolveWithDeps (selectedIds input) byId;
          ordered = uniqueKeepOrder withDeps
      in case emitBlocks byId input ordered [header (os input)] of
           Inl e \<Rightarrow> Inl e
         | Inr blocks \<Rightarrow>
             Inr \<lparr>script_text = join ''\<newline>'' (blocks @ [footer]), includedIds = ordered\<rparr>)"


text \<open>\<^verbatim>\<open>generateScript\<close>, on the index of the shipped registry.\<close>

definition generateScript :: "GenerateInput \<Rightarrow> error + GenerateResult" where
  "generateScript input = generateScriptWith mapById input"


section \<open>Notions the properties are stated with\<close>

text \<open>
  \<open>requires_rel byId\<close> relates a key of the index to each id in the \<^verbatim>\<open>requires\<close> of its
  module: \<open>(a, b)\<close> reads "a requires b".
\<close>

definition requires_rel :: "index \<Rightarrow> (string \<times> string) set" where
  "requires_rel byId = {(a, b). \<exists>m. fmlookup byId a = Some m \<and> b \<in> set (requires_or_empty m)}"

text \<open>
  What the second pass is to compute, in the words of the specification: keep the first
  occurrence of each id, in first-seen order, and drop every later duplicate.
\<close>

fun keepFirst :: "string list \<Rightarrow> string list" where
  "keepFirst [] = []"
| "keepFirst (x # xs) = x # keepFirst (filter (\<lambda>y. y \<noteq> x) xs)"

text \<open>
  Invariants of the traversal. \<open>dfs_post byId s s'\<close>: from state \<open>s\<close> to \<open>s'\<close> the
  visited set has grown and the output has been extended by exactly the newly visited
  keys of the index, each once. \<open>dfs_closed\<close>: every module visited in between has all
  its requirements visited at the end. \<open>unfinished\<close>: the keys visited and not yet
  pushed (the calls of \<open>dfs\<close> in progress). \<open>placed byId n out\<close>: from position \<open>n\<close>
  on, every requirement of \<open>out ! k\<close> that is a key of the index stands before position
  \<open>k\<close>, or else requires \<open>out ! k\<close> in zero or more steps.
\<close>

definition dfs_post :: "index \<Rightarrow> dfs_state \<Rightarrow> dfs_state \<Rightarrow> bool" where
  "dfs_post byId s s' \<longleftrightarrow>
     fst s \<subseteq> fst s' \<and>
     (\<exists>new. snd s' = snd s @ new \<and> distinct new \<and> set new = (fst s' - fst s) \<inter> fmdom' byId)"

definition dfs_closed :: "index \<Rightarrow> dfs_state \<Rightarrow> dfs_state \<Rightarrow> bool" where
  "dfs_closed byId s s' \<longleftrightarrow>
     (\<forall>v m. v \<in> fst s' - fst s \<and> fmlookup byId v = Some m \<longrightarrow> set (requires_or_empty m) \<subseteq> fst s')"

definition unfinished :: "index \<Rightarrow> dfs_state \<Rightarrow> string set" where
  "unfinished byId s = (fst s \<inter> fmdom' byId) - set (snd s)"

definition placed :: "index \<Rightarrow> nat \<Rightarrow> string list \<Rightarrow> bool" where
  "placed byId n out \<longleftrightarrow>
     (\<forall>k m d. n \<le> k \<and> k < length out \<and> fmlookup byId (out ! k) = Some m \<and>
        d \<in> set (requires_or_empty m) \<and> d \<in> fmdom' byId \<longrightarrow>
        d \<in> set (take k out) \<or> (d, out ! k) \<in> (requires_rel byId)\<^sup>*)"


text \<open>
  Small registries and requests for the examples: modules without a script for any OS,
  a chain (A requires B) and a cycle (A requires B, B requires A).
\<close>

definition plainModule :: "string \<Rightarrow> string list option \<Rightarrow> ModuleDef" where
  "plainModule i deps = \<lparr>mod_id = i, name = i, requires = deps, script = Map.empty\<rparr>"

definition chain_index :: index where
  "chain_index = mapByIdOf [plainModule ''B'' None, plainModule ''A'' (Some [''B''])]"

definition cycle_index :: index where
  "cycle_index = mapByIdOf [plainModule ''A'' (Some [''B'']), plainModule ''B'' (Some [''A''])]"

definition select_A :: GenerateInput where
  "select_A = \<lparr>os = mac, selectedIds = [''A''], vars = Map.empty\<rparr>"

definition result_B_A :: GenerateResult where
  "result_B_A =
     \<lparr>script_text = join ''\<newline>''
        [header mac, skipNotice (plainModule ''B'' None) mac,
         skipNotice (plainModule ''A'' (Some [''B''])) mac, footer],
      includedIds = [''B'', ''A'']\<rparr>"

definition select_A_A_B :: GenerateInput where
  "select_A_A_B = \<lparr>os = mac, selectedIds = [''A'', ''A'', ''B''], vars = Map.empty\<rparr>"

text \<open>
  What escaping is for. \<open>isSpecial\<close> are the four characters that keep a meaning inside
  a double-quoted word of a POSIX shell; \<open>escapeChar\<close> puts a backslash before such a
  character. \<open>shellDoubleQuoted body\<close> is the text the shell reads from the body of a
  double-quoted word (POSIX Shell Command Language, 2.2.3): a backslash before one of
  the four characters yields that character, a backslash before a newline is a line
  continuation, any other backslash stands for itself. The result is \<open>None\<close> when the
  body holds an unescaped double quote (the word would end there), an unescaped dollar
  sign or backtick (an expansion would start there), or ends in a lone backslash.
\<close>

definition isSpecial :: "char \<Rightarrow> bool" where
  "isSpecial c \<longleftrightarrow> c = backslash \<or> c = dquote \<or> c = dollar \<or> c = backtick"

definition escapeChar :: "char \<Rightarrow> string" where
  "escapeChar c = (if isSpecial c then [backslash, c] else [c])"

fun shellDoubleQuoted :: "string \<Rightarrow> string option" where
  "shellDoubleQuoted [] = Some []"
| "shellDoubleQuoted [c] = (if isSpecial c then None else Some [c])"
| "shellDoubleQuoted (c # d # cs) =
     (if c = backslash then
        (if isSpecial d then map_option ((#) d) (shellDoubleQuoted cs)
         else if d = CHR ''\<newline>'' then shellDoubleQuoted cs
         else map_option ((#) c) (shellDoubleQuoted (d # cs)))
      else if isSpecial c then None
      else map_option ((#) c) (shellDoubleQuoted (d # cs)))"

text \<open>
  Removing the references to an id \<open>u\<close>: \<open>dropReference u\<close> deletes \<open>u\<close> from the
  \<^verbatim>\<open>requires\<close> of a module, \<open>withoutReference u\<close> does so for every module of an index.
\<close>

definition dropReference :: "string \<Rightarrow> ModuleDef \<Rightarrow> ModuleDef" where
  "dropReference u m = m\<lparr>requires := map_option (filter (\<lambda>d. d \<noteq> u)) (requires m)\<rparr>"

definition withoutReference :: "string \<Rightarrow> index \<Rightarrow> index" where
  "withoutReference u byId = fmmap (dropReference u) byId"

text \<open>The chain again, with a requirement and a selected id that no module has.\<close>

definition ghost_index :: index where
  "ghost_index = mapByIdOf [plainModule ''B'' None, plainModule ''A'' (Some [''ghost'', ''B''])]"

definition select_ghost_A :: GenerateInput where
  "select_ghost_A = \<lparr>os = mac, selectedIds = [''ghost'', ''A''], vars = Map.empty\<rparr>"

text \<open>The keys of the placeholders that the scan finds in a template, in order.\<close>

definition placeholderKeys :: "string \<Rightarrow> string list" where
  "placeholderKeys t = concat (map (\<lambda>s. case s of Lit c \<Rightarrow> [] | Placeholder k \<Rightarrow> [k]) (segments t))"

text \<open>A module with the entry of its script for one OS removed.\<close>

definition withoutScript :: "OS \<Rightarrow> ModuleDef \<Rightarrow> ModuleDef" where
  "withoutScript t m = m\<lparr>script := (script m)(t := None)\<rparr>"

text \<open>The chain again, where the script of A for \<open>mac\<close> is the empty string.\<close>

definition empty_script_index :: index where
  "empty_script_index =
     mapByIdOf [plainModule ''B'' None,
                \<lparr>mod_id = ''A'', name = ''A'', requires = Some [''B''], script = [mac \<mapsto> []]\<rparr>]"

text \<open>
  What substitution is to do with each segment of a template, in the words of the
  specification: a placeholder becomes the escaped value of its variable, or the empty
  string when the key is missing. \<open>segment_text\<close> is the text of the template that a
  segment stands for, and \<open>isIdentifier\<close> the keys that the pattern
  \<^verbatim>\<open>[a-zA-Z0-9_]+\<close> matches.
\<close>

fun substitute :: "(string \<rightharpoonup> string) \<Rightarrow> segment \<Rightarrow> string" where
  "substitute vs (Lit c) = [c]"
| "substitute vs (Placeholder key) =
     escapeForDoubleQuotes (case vs key of None \<Rightarrow> [] | Some v \<Rightarrow> v)"

fun segment_text :: "segment \<Rightarrow> string" where
  "segment_text (Lit c) = [c]"
| "segment_text (Placeholder key) = ''{{'' @ key @ ''}}''"

definition isIdentifier :: "string \<Rightarrow> bool" where
  "isIdentifier key \<longleftrightarrow> key \<noteq> [] \<and> (\<forall>c \<in> set key. isIdentChar c)"

section \<open>The traversal: frame, closure and order\<close>

lemma dfs_post_refl: "dfs_post byId s s"
  by (simp add: dfs_post_def)

lemma dfs_post_trans:
  assumes "dfs_post byId s s1" "dfs_post byId s1 s2"
  shows "dfs_post byId s s2"
proof -
  from assms(1) obtain n1 where n1: "fst s \<subseteq> fst s1" "snd s1 = snd s @ n1" "distinct n1"
    "set n1 = (fst s1 - fst s) \<inter> fmdom' byId" unfolding dfs_post_def by blast
  from assms(2) obtain n2 where n2: "fst s1 \<subseteq> fst s2" "snd s2 = snd s1 @ n2" "distinct n2"
    "set n2 = (fst s2 - fst s1) \<inter> fmdom' byId" unfolding dfs_post_def by blast
  have "snd s2 = snd s @ (n1 @ n2)" using n1 n2 by simp
  moreover have "distinct (n1 @ n2)" using n1 n2 by auto
  moreover have "set (n1 @ n2) = (fst s2 - fst s) \<inter> fmdom' byId" using n1 n2 by auto
  moreover have "fst s \<subseteq> fst s2" using n1 n2 by blast
  ultimately show ?thesis unfolding dfs_post_def by blast
qed

lemma dfs_post_push:
  assumes "dfs_post byId (insert i V, out) (V1, out1)" "i \<notin> V" "fmlookup byId i = Some m"
  shows "dfs_post byId (V, out) (V1, out1 @ [i])"
proof -
  from assms(1) obtain n1 where n1: "insert i V \<subseteq> V1" "out1 = out @ n1" "distinct n1"
    "set n1 = (V1 - insert i V) \<inter> fmdom' byId" unfolding dfs_post_def by auto
  have iD: "i \<in> fmdom' byId" using assms(3) by (simp add: fmdom'I)
  have "out1 @ [i] = out @ (n1 @ [i])" using n1 by simp
  moreover have "distinct (n1 @ [i])" using n1 by auto
  moreover have "set (n1 @ [i]) = (V1 - V) \<inter> fmdom' byId" using n1 iD assms(2) by auto
  moreover have "V \<subseteq> V1" using n1 by blast
  ultimately show ?thesis unfolding dfs_post_def by (metis fst_conv snd_conv)
qed

lemma dfs_frame:
  "dfs_post byId s (dfs byId i s) \<and> i \<in> fst (dfs byId i s)"
  "dfs_post byId s (dfs_all byId ds s) \<and> set ds \<subseteq> fst (dfs_all byId ds s)"
proof (induction byId i s and byId ds s rule: dfs_dfs_all.induct)
  case (1 byId i visited out)
  show ?case
  proof (cases "i \<in> visited")
    case True
    then show ?thesis by (simp add: dfs.simps dfs_post_refl)
  next
    case nv: False
    show ?thesis
    proof (cases "fmlookup byId i")
      case None
      then have "i \<notin> fmdom' byId" by (simp add: fmdom'_notI)
      with nv None show ?thesis by (auto simp: dfs.simps dfs_post_def)
    next
      case (Some m)
      obtain V1 out1 where r: "dfs_all byId (requires_or_empty m) (insert i visited, out) = (V1, out1)"
        by (cases "dfs_all byId (requires_or_empty m) (insert i visited, out)") auto
      from "1.IH"[OF nv Some] r have p: "dfs_post byId (insert i visited, out) (V1, out1)" by simp
      then have "i \<in> V1" by (auto simp: dfs_post_def)
      moreover have "dfs byId i (visited, out) = (V1, out1 @ [i])"
        using nv Some r by (simp add: dfs.simps)
      ultimately show ?thesis using dfs_post_push[OF p nv Some] by simp
    qed
  qed
next
  case (2 byId s)
  show ?case by (simp add: dfs_post_refl)
next
  case (3 byId dep deps s)
  have "dfs_post byId s (dfs_all byId deps (dfs byId dep s))"
    using 3 by (blast intro: dfs_post_trans)
  moreover have "dep \<in> fst (dfs_all byId deps (dfs byId dep s))"
    using 3 by (auto simp: dfs_post_def)
  ultimately show ?case using 3 by simp
qed


lemma dfs_closure:
  "dfs_closed byId s (dfs byId i s)"
  "dfs_closed byId s (dfs_all byId ds s)"
proof (induction byId i s and byId ds s rule: dfs_dfs_all.induct)
  case (1 byId i visited out)
  show ?case
  proof (cases "i \<in> visited")
    case True
    then show ?thesis by (simp add: dfs.simps dfs_closed_def)
  next
    case nv: False
    show ?thesis
    proof (cases "fmlookup byId i")
      case None
      with nv show ?thesis by (auto simp: dfs.simps dfs_closed_def)
    next
      case (Some m)
      obtain V1 out1 where r: "dfs_all byId (requires_or_empty m) (insert i visited, out) = (V1, out1)"
        by (cases "dfs_all byId (requires_or_empty m) (insert i visited, out)") auto
      have c: "dfs_closed byId (insert i visited, out) (V1, out1)"
        using "1.IH"[OF nv Some] r by simp
      have sub: "set (requires_or_empty m) \<subseteq> V1"
        using dfs_frame(2)[of byId "(insert i visited, out)" "requires_or_empty m"] r by simp
      have "dfs byId i (visited, out) = (V1, out1 @ [i])"
        using nv Some r by (simp add: dfs.simps)
      moreover have "dfs_closed byId (visited, out) (V1, out1 @ [i])"
        unfolding dfs_closed_def
      proof (intro allI impI)
        fix v m'
        assume h: "v \<in> fst (V1, out1 @ [i]) - fst (visited, out) \<and> fmlookup byId v = Some m'"
        show "set (requires_or_empty m') \<subseteq> fst (V1, out1 @ [i])"
        proof (cases "v = i")
          case True
          with h Some sub show ?thesis by simp
        next
          case False
          with h c show ?thesis unfolding dfs_closed_def by auto
        qed
      qed
      ultimately show ?thesis by simp
    qed
  qed
next
  case (2 byId s)
  show ?case by (simp add: dfs_closed_def)
next
  case (3 byId dep deps s)
  have "fst (dfs byId dep s) \<subseteq> fst (dfs_all byId deps (dfs byId dep s))"
    using dfs_frame(2)[of byId "dfs byId dep s" deps] by (simp add: dfs_post_def)
  with 3 show ?case unfolding dfs_closed_def by (simp, blast)
qed

lemma dfs_post_unfinished: "dfs_post byId s s' \<Longrightarrow> unfinished byId s' = unfinished byId s"
  unfolding dfs_post_def unfinished_def by auto

lemma placed_append:
  assumes "placed byId n out1" "placed byId (length out1) (out1 @ new)"
  shows "placed byId n (out1 @ new)"
  unfolding placed_def
proof (intro allI impI)
  fix k m d
  assume h: "n \<le> k \<and> k < length (out1 @ new) \<and> fmlookup byId ((out1 @ new) ! k) = Some m \<and>
        d \<in> set (requires_or_empty m) \<and> d \<in> fmdom' byId"
  show "d \<in> set (take k (out1 @ new)) \<or> (d, (out1 @ new) ! k) \<in> (requires_rel byId)\<^sup>*"
  proof (cases "k < length out1")
    case True
    with h have "n \<le> k \<and> k < length out1 \<and> fmlookup byId (out1 ! k) = Some m \<and>
        d \<in> set (requires_or_empty m) \<and> d \<in> fmdom' byId"
      by (simp add: nth_append)
    then have "d \<in> set (take k out1) \<or> (d, out1 ! k) \<in> (requires_rel byId)\<^sup>*"
      using assms(1) unfolding placed_def by blast
    with True show ?thesis by (simp add: nth_append)
  next
    case False
    with h show ?thesis using assms(2) unfolding placed_def by (meson not_less)
  qed
qed

lemma dfs_order:
  "(\<forall>v \<in> unfinished byId s. (v, i) \<in> (requires_rel byId)\<^sup>*) \<Longrightarrow>
     placed byId (length (snd s)) (snd (dfs byId i s))"
  "(\<forall>v \<in> unfinished byId s. \<forall>d \<in> set ds. (v, d) \<in> (requires_rel byId)\<^sup>*) \<Longrightarrow>
     placed byId (length (snd s)) (snd (dfs_all byId ds s))"
proof (induction byId i s and byId ds s rule: dfs_dfs_all.induct)
  case (1 byId i visited out)
  show ?case
  proof (cases "i \<in> visited")
    case True
    then show ?thesis by (auto simp: dfs.simps placed_def)
  next
    case nv: False
    show ?thesis
    proof (cases "fmlookup byId i")
      case None
      with nv show ?thesis by (auto simp: dfs.simps placed_def)
    next
      case (Some m)
      let ?s1 = "(insert i visited, out)"
      obtain V1 out1 where r: "dfs_all byId (requires_or_empty m) ?s1 = (V1, out1)"
        by (cases "dfs_all byId (requires_or_empty m) ?s1") auto
      have res: "dfs byId i (visited, out) = (V1, out1 @ [i])"
        using nv Some r by (simp add: dfs.simps)
      have un1: "unfinished byId ?s1 \<subseteq> insert i (unfinished byId (visited, out))"
        by (auto simp: unfinished_def)
      have edge: "(i, d) \<in> requires_rel byId" if "d \<in> set (requires_or_empty m)" for d
        using that Some by (auto simp: requires_rel_def)
      have pre: "\<forall>v \<in> unfinished byId ?s1. \<forall>d \<in> set (requires_or_empty m). (v, d) \<in> (requires_rel byId)\<^sup>*"
      proof (intro ballI)
        fix v d assume v: "v \<in> unfinished byId ?s1" and d: "d \<in> set (requires_or_empty m)"
        from v un1 have "(v, i) \<in> (requires_rel byId)\<^sup>*" using "1.prems" by auto
        then show "(v, d) \<in> (requires_rel byId)\<^sup>*" using edge[OF d] by (rule rtrancl_into_rtrancl)
      qed
      have p1: "placed byId (length out) out1"
        using "1.IH"[OF nv Some pre] r by simp
      have fr: "dfs_post byId ?s1 (V1, out1)" and sub: "set (requires_or_empty m) \<subseteq> V1"
        using dfs_frame(2)[of byId ?s1 "requires_or_empty m"] r by simp_all
      have un2: "unfinished byId (V1, out1) = unfinished byId ?s1"
        using dfs_post_unfinished[OF fr] .
      from fr obtain new where new: "out1 = out @ new" by (auto simp: dfs_post_def)
      have "placed byId (length out1) (out1 @ [i])"
        unfolding placed_def
      proof (intro allI impI)
        fix k m' d
        assume h: "length out1 \<le> k \<and> k < length (out1 @ [i]) \<and> fmlookup byId ((out1 @ [i]) ! k) = Some m' \<and>
          d \<in> set (requires_or_empty m') \<and> d \<in> fmdom' byId"
        then have k: "k = length out1" by simp
        with h Some have m': "m' = m" by simp
        show "d \<in> set (take k (out1 @ [i])) \<or> (d, (out1 @ [i]) ! k) \<in> (requires_rel byId)\<^sup>*"
        proof (cases "d \<in> set out1")
          case True
          then show ?thesis using k by simp
        next
          case False
          from h m' sub have "d \<in> V1" by auto
          with False h have "d \<in> unfinished byId (V1, out1)" by (simp add: unfinished_def)
          with un2 un1 have "d = i \<or> d \<in> unfinished byId (visited, out)" by auto
          then have "(d, i) \<in> (requires_rel byId)\<^sup>*" using "1.prems" by auto
          then show ?thesis using k by simp
        qed
      qed
      with p1 have "placed byId (length out) (out1 @ [i])" by (rule placed_append)
      with res show ?thesis by simp
    qed
  qed
next
  case (2 byId s)
  show ?case by (auto simp: placed_def)
next
  case (3 byId dep deps s)
  let ?s1 = "dfs byId dep s"
  have fr: "dfs_post byId s ?s1" using dfs_frame(1)[of byId s dep] by simp
  have un: "unfinished byId ?s1 = unfinished byId s" using dfs_post_unfinished[OF fr] .
  have p1: "placed byId (length (snd s)) (snd ?s1)"
    using "3.IH"(1) "3.prems" by simp
  have p2: "placed byId (length (snd ?s1)) (snd (dfs_all byId deps ?s1))"
    using "3.IH"(2) "3.prems" un by simp
  have "dfs_post byId ?s1 (dfs_all byId deps ?s1)"
    using dfs_frame(2)[of byId ?s1 deps] by simp
  then obtain new where new: "snd (dfs_all byId deps ?s1) = snd ?s1 @ new"
    by (auto simp: dfs_post_def)
  from p2 have "placed byId (length (snd ?s1)) (snd ?s1 @ new)" by (simp add: new)
  with p1 have "placed byId (length (snd s)) (snd ?s1 @ new)" by (rule placed_append)
  then show ?case by (simp add: new)
qed

section \<open>The resolver and the second pass as a whole\<close>

lemma resolve_frame:
  "distinct (resolveWithDeps ids byId)"
  "set (resolveWithDeps ids byId) = fst (dfs_all byId ids ({}, [])) \<inter> fmdom' byId"
  "set ids \<subseteq> fst (dfs_all byId ids ({}, []))"
  using dfs_frame(2)[of byId "({}, [])" ids]
  by (auto simp: dfs_post_def resolveWithDeps_def)

lemma resolve_visited_closed:
  assumes "(s, d) \<in> (requires_rel byId)\<^sup>*" "s \<in> fst (dfs_all byId ids ({}, []))"
  shows "d \<in> fst (dfs_all byId ids ({}, []))"
  using assms
proof (induction rule: rtrancl_induct)
  case base
  then show ?case by simp
next
  case (step y z)
  then obtain m where m: "fmlookup byId y = Some m" "z \<in> set (requires_or_empty m)"
    by (auto simp: requires_rel_def)
  from step have "y \<in> fst (dfs_all byId ids ({}, []))" by simp
  with m show ?case
    using dfs_closure(2)[of byId "({}, [])" ids] unfolding dfs_closed_def by auto
qed

lemma resolve_closed:
  assumes "s \<in> set ids" "(s, d) \<in> (requires_rel byId)\<^sup>*" "d \<in> fmdom' byId"
  shows "d \<in> set (resolveWithDeps ids byId)"
  using resolve_visited_closed[OF assms(2)] assms(1,3) resolve_frame(2,3)[of ids byId]
  by auto

lemma resolve_placed: "placed byId 0 (resolveWithDeps ids byId)"
  using dfs_order(2)[of byId "({}, [])" ids]
  by (simp add: unfinished_def resolveWithDeps_def)

lemma resolve_in_index: "x \<in> set (resolveWithDeps ids byId) \<Longrightarrow> x \<in> fmdom' byId"
  using resolve_frame(2)[of ids byId] by auto

lemma dfs_reach:
  "\<forall>v \<in> fst (dfs byId i s) - fst s. (i, v) \<in> (requires_rel byId)\<^sup>*"
  "\<forall>v \<in> fst (dfs_all byId ds s) - fst s. \<exists>d \<in> set ds. (d, v) \<in> (requires_rel byId)\<^sup>*"
proof (induction byId i s and byId ds s rule: dfs_dfs_all.induct)
  case (1 byId i visited out)
  show ?case
  proof (cases "i \<in> visited")
    case True
    then show ?thesis by (simp add: dfs.simps)
  next
    case nv: False
    show ?thesis
    proof (cases "fmlookup byId i")
      case None
      with nv show ?thesis by (auto simp: dfs.simps)
    next
      case (Some m)
      obtain V1 out1 where r: "dfs_all byId (requires_or_empty m) (insert i visited, out) = (V1, out1)"
        by (cases "dfs_all byId (requires_or_empty m) (insert i visited, out)") auto
      have res: "dfs byId i (visited, out) = (V1, out1 @ [i])"
        using nv Some r by (simp add: dfs.simps)
      have ih: "\<forall>v \<in> V1 - insert i visited. \<exists>d \<in> set (requires_or_empty m). (d, v) \<in> (requires_rel byId)\<^sup>*"
        using "1.IH"[OF nv Some] r by simp
      have "(i, v) \<in> (requires_rel byId)\<^sup>*" if v: "v \<in> V1 - visited" for v
      proof (cases "v = i")
        case True
        then show ?thesis by simp
      next
        case False
        with v ih obtain d where d: "d \<in> set (requires_or_empty m)" "(d, v) \<in> (requires_rel byId)\<^sup>*"
          by auto
        then have "(i, d) \<in> requires_rel byId" using Some by (auto simp: requires_rel_def)
        then show ?thesis using d(2) by (rule converse_rtrancl_into_rtrancl)
      qed
      with res show ?thesis by simp
    qed
  qed
next
  case (2 byId s)
  show ?case by simp
next
  case (3 byId dep deps s)
  show ?case
  proof
    fix v assume v: "v \<in> fst (dfs_all byId (dep # deps) s) - fst s"
    show "\<exists>d \<in> set (dep # deps). (d, v) \<in> (requires_rel byId)\<^sup>*"
    proof (cases "v \<in> fst (dfs byId dep s)")
      case True
      with v "3.IH"(1) show ?thesis by auto
    next
      case False
      with v "3.IH"(2) show ?thesis by auto
    qed
  qed
qed

lemma resolve_sound:
  assumes "d \<in> set (resolveWithDeps ids byId)"
  shows "d \<in> fmdom' byId \<and> (\<exists>s \<in> set ids. (s, d) \<in> (requires_rel byId)\<^sup>*)"
  using assms resolve_frame(2)[of ids byId] dfs_reach(2)[of byId ids "({}, [])"] by auto

lemma uniqueKeepOrder_loop_eq:
  "uniqueKeepOrder_loop xs (s, r) = (s \<union> set xs, r @ keepFirst (filter (\<lambda>x. x \<notin> s) xs))"
proof (induction xs arbitrary: s r)
  case Nil
  show ?case by simp
next
  case (Cons x xs)
  have f: "filter (\<lambda>y. y \<noteq> x) (filter (\<lambda>y. y \<notin> s) xs) = filter (\<lambda>y. y \<notin> insert x s) xs"
    by (induction xs) auto
  show ?case
  proof (cases "x \<in> s")
    case True
    then show ?thesis using Cons.IH[of s r] by (auto simp: insert_absorb)
  next
    case False
    then show ?thesis using Cons.IH[of "insert x s" "r @ [x]"] f by auto
  qed
qed

lemma uniqueKeepOrder_keepFirst: "uniqueKeepOrder xs = keepFirst xs"
  by (simp add: uniqueKeepOrder_def uniqueKeepOrder_loop_eq)

lemma set_keepFirst: "set (keepFirst xs) = set xs"
proof (induction xs rule: keepFirst.induct)
  case 1
  show ?case by simp
next
  case (2 x xs)
  then show ?case by auto
qed

lemma distinct_keepFirst: "distinct (keepFirst xs)"
proof (induction xs rule: keepFirst.induct)
  case 1
  show ?case by simp
next
  case (2 x xs)
  then show ?case by (simp add: set_keepFirst)
qed

lemma keepFirst_distinct_id: "distinct xs \<Longrightarrow> keepFirst xs = xs"
proof (induction xs)
  case Nil
  show ?case by simp
next
  case (Cons x xs)
  then have "filter (\<lambda>y. y \<noteq> x) xs = xs" by (auto intro: filter_True)
  with Cons show ?case by simp
qed

lemma generateScriptWith_includedIds:
  assumes "generateScriptWith byId input = Inr r"
  shows "includedIds r = resolveWithDeps (selectedIds input) byId"
proof -
  have "uniqueKeepOrder (resolveWithDeps (selectedIds input) byId) = resolveWithDeps (selectedIds input) byId"
    by (simp add: uniqueKeepOrder_keepFirst keepFirst_distinct_id resolve_frame(1))
  with assms show ?thesis
    by (auto simp: generateScriptWith_def Let_def split: sum.splits)
qed


lemmas run_simps =
  generateScriptWith_def resolveWithDeps_def uniqueKeepOrder_def mapByIdOf_def
  requires_or_empty_def plainModule_def dfs.simps skipNotice_def

lemma chain_run: "generateScriptWith chain_index select_A = Inr result_B_A"
  by (simp add: run_simps chain_index_def select_A_def result_B_A_def)

lemma cycle_ids: "map_sum id includedIds (generateScriptWith cycle_index select_A) = Inr [''B'', ''A'']"
  by (simp add: run_simps cycle_index_def select_A_def)

lemma count_list_distinct: "distinct xs \<Longrightarrow> x \<in> set xs \<Longrightarrow> count_list xs x = 1"
  by (induction xs) auto

lemma chain_edge: "(''A'', ''B'') \<in> requires_rel chain_index"
  by (simp add: requires_rel_def chain_index_def mapByIdOf_def plainModule_def requires_or_empty_def)

section \<open>Escaping\<close>

lemma replaceAll_Nil: "replaceAll c rep [] = []"
  by (simp add: replaceAll_def)

lemma replaceAll_Cons: "replaceAll c rep (x # xs) = (if x = c then rep else [x]) @ replaceAll c rep xs"
  by (simp add: replaceAll_def)

lemma replaceAll_append: "replaceAll c rep (xs @ ys) = replaceAll c rep xs @ replaceAll c rep ys"
  by (simp add: replaceAll_def)

lemma escape_Cons: "escapeForDoubleQuotes (x # v) = escapeChar x @ escapeForDoubleQuotes v"
  by (simp add: escapeForDoubleQuotes_def replaceAll_Cons replaceAll_Nil replaceAll_append
      escapeChar_def isSpecial_def backslash_def dquote_def dollar_def backtick_def)

lemma escape_Nil: "escapeForDoubleQuotes [] = []"
  by (simp add: escapeForDoubleQuotes_def replaceAll_Nil)

lemma escape_single_pass: "escapeForDoubleQuotes v = concat (map escapeChar v)"
  by (induction v) (simp_all add: escape_Nil escape_Cons)

lemma shell_plain: "\<not> isSpecial c \<Longrightarrow> shellDoubleQuoted (c # cs) = map_option ((#) c) (shellDoubleQuoted cs)"
  by (cases cs) (auto simp: isSpecial_def)

lemma shell_escaped: "isSpecial c \<Longrightarrow> shellDoubleQuoted (backslash # c # cs) = map_option ((#) c) (shellDoubleQuoted cs)"
  by simp

lemma shell_escape: "shellDoubleQuoted (escapeForDoubleQuotes v) = Some v"
proof (induction v)
  case Nil
  show ?case by (simp add: escape_Nil)
next
  case (Cons x v)
  show ?case
  proof (cases "isSpecial x")
    case True
    then show ?thesis using Cons by (simp add: escape_Cons escapeChar_def del: shellDoubleQuoted.simps add: shell_escaped)
  next
    case False
    then show ?thesis using Cons by (simp add: escape_Cons escapeChar_def shell_plain del: shellDoubleQuoted.simps)
  qed
qed

lemma backslash_last_escapes_twice:
  "replaceAll backslash [backslash, backslash] (replaceAll dquote [backslash, dquote] [dquote])
     = [backslash, backslash, dquote] \<and>
   shellDoubleQuoted [backslash, backslash, dquote] = None"
  by (simp add: replaceAll_def isSpecial_def backslash_def dquote_def)

section \<open>References to an id that is not in the index\<close>

lemma requires_dropReference:
  "requires_or_empty (dropReference u m) = filter (\<lambda>d. d \<noteq> u) (requires_or_empty m)"
  by (simp add: requires_or_empty_def dropReference_def split: option.splits)

lemma lookup_withoutReference:
  "fmlookup (withoutReference u byId) i = map_option (dropReference u) (fmlookup byId i)"
  by (simp add: withoutReference_def)

lemma dfs_without_reference:
  "u \<notin> fmdom' byId \<Longrightarrow> i \<noteq> u \<Longrightarrow>
     dfs (withoutReference u byId) i (fst s - {u}, snd s) = (fst (dfs byId i s) - {u}, snd (dfs byId i s))"
  "u \<notin> fmdom' byId \<Longrightarrow>
     dfs_all (withoutReference u byId) (filter (\<lambda>d. d \<noteq> u) ds) (fst s - {u}, snd s)
       = (fst (dfs_all byId ds s) - {u}, snd (dfs_all byId ds s))"
proof (induction byId i s and byId ds s rule: dfs_dfs_all.induct)
  case (1 byId i visited out)
  show ?case
  proof (cases "i \<in> visited")
    case True
    with 1 show ?thesis by (simp add: dfs.simps)
  next
    case nv: False
    show ?thesis
    proof (cases "fmlookup byId i")
      case None
      with nv 1 show ?thesis
        by (auto simp: dfs.simps lookup_withoutReference)
    next
      case (Some m)
      have "dfs_all (withoutReference u byId) (filter (\<lambda>d. d \<noteq> u) (requires_or_empty m))
              (fst (insert i visited, out) - {u}, snd (insert i visited, out))
            = (fst (dfs_all byId (requires_or_empty m) (insert i visited, out)) - {u},
               snd (dfs_all byId (requires_or_empty m) (insert i visited, out)))"
        using "1.IH"[OF nv Some "1.prems"(1)] .
      moreover have "insert i visited - {u} = insert i (visited - {u})" using "1.prems"(2) by auto
      ultimately show ?thesis using nv Some "1.prems"(2)
        by (simp add: dfs.simps lookup_withoutReference requires_dropReference split: prod.splits)
    qed
  qed
next
  case (2 byId s)
  show ?case by simp
next
  case (3 byId dep deps s)
  show ?case
  proof (cases "dep = u")
    case True
    have "fmlookup byId u = None" using "3.prems" by (rule fmdom'_notD)
    then have d: "fst (dfs byId u s) - {u} = fst s - {u}" "snd (dfs byId u s) = snd s"
      by (cases s; auto simp: dfs.simps)+
    from "3.IH"(2)[OF "3.prems"] True d show ?thesis by simp
  next
    case False
    from "3.IH"(1)[OF "3.prems" False] "3.IH"(2)[OF "3.prems"] False show ?thesis by simp
  qed
qed

lemma resolve_without_reference:
  assumes "u \<notin> fmdom' byId"
  shows "resolveWithDeps (filter (\<lambda>d. d \<noteq> u) ids) (withoutReference u byId) = resolveWithDeps ids byId"
  using dfs_without_reference(2)[OF assms, of ids "({}, [])"]
  by (simp add: resolveWithDeps_def)

lemma emitBlocks_without_reference:
  "emitBlocks (withoutReference u byId) input ids blocks = emitBlocks byId input ids blocks"
proof (induction ids arbitrary: blocks)
  case Nil
  show ?case by simp
next
  case (Cons i ids)
  show ?case
  proof (cases "fmlookup byId i")
    case None
    then show ?thesis using Cons by (simp add: lookup_withoutReference)
  next
    case (Some m)
    have "script (dropReference u m) = script m" "banner (dropReference u m) = banner m"
      "skipNotice (dropReference u m) = skipNotice m"
      by (simp_all add: dropReference_def banner_def skipNotice_def fun_eq_iff)
    with Some Cons show ?thesis
      by (simp add: lookup_withoutReference split: option.splits sum.splits)
  qed
qed

lemma generate_without_reference:
  assumes "u \<notin> fmdom' byId"
  shows "generateScriptWith (withoutReference u byId)
           (input\<lparr>selectedIds := filter (\<lambda>d. d \<noteq> u) (selectedIds input)\<rparr>)
         = generateScriptWith byId input"
proof -
  have "emitBlocks byId (input\<lparr>selectedIds := ids\<rparr>) xs bs = emitBlocks byId input xs bs" for ids xs bs
    by (induction xs arbitrary: bs) (simp_all split: option.splits sum.splits)
  then show ?thesis
    by (simp add: generateScriptWith_def resolve_without_reference[OF assms] emitBlocks_without_reference)
qed

lemma fmdom'_withoutReference: "fmdom' (withoutReference u byId) = fmdom' byId"
  by (simp add: withoutReference_def)

lemma dfs_unknown: "u \<notin> fmdom' byId \<Longrightarrow> dfs byId u (visited, out) = (insert u visited, out)"
  by (auto simp: dfs.simps fmdom'_notD insert_absorb)

section \<open>Substitution and assembly without error\<close>

lemma matchToken_needs_brace: "c \<noteq> CHR ''{'' \<Longrightarrow> matchToken (c # cs) = None"
  by (simp add: matchToken_def split: list.splits)

lemma placeholderKeys_Nil: "placeholderKeys [] = []"
  by (simp add: placeholderKeys_def)

lemma placeholderKeys_Cons:
  "placeholderKeys (c # cs) =
     (if c = CHR ''{''
      then (case matchToken (c # cs) of
              Some (k, rest) \<Rightarrow> k # placeholderKeys rest
            | None \<Rightarrow> placeholderKeys cs)
      else placeholderKeys cs)"
  by (auto simp: placeholderKeys_def segments.simps(2) matchToken_needs_brace split: option.splits)

lemmas scan_simps =
  placeholderKeys_Nil placeholderKeys_Cons matchToken_def isIdentChar_def Let_def

lemma keys_clt: "placeholderKeys base_clt_mac = []" "placeholderKeys base_clt_ubuntu = []"
  by (simp_all add: scan_simps base_clt_mac_def base_clt_ubuntu_def)

lemma keys_homebrew: "placeholderKeys base_homebrew_mac = []" "placeholderKeys base_homebrew_ubuntu = []"
  by (simp_all add: scan_simps base_homebrew_mac_def base_homebrew_ubuntu_def)

lemma keys_git: "placeholderKeys dev_git_mac = []" "placeholderKeys dev_git_ubuntu = []"
  by (simp_all add: scan_simps dev_git_mac_def dev_git_ubuntu_def)

lemma keys_git_config:
  "placeholderKeys dev_git_config_mac = [''git_name'', ''git_email'']"
  "placeholderKeys dev_git_config_ubuntu = [''git_name'', ''git_email'']"
  by (simp_all add: scan_simps dev_git_config_mac_def dev_git_config_ubuntu_def)


lemma render_ok:
  assumes "\<forall>k. Placeholder k \<in> set ss \<longrightarrow> getProperty vs k \<noteq> JSObject"
  shows "\<exists>out. render vs ss = Inr out"
  using assms
proof (induction ss)
  case Nil
  show ?case by simp
next
  case (Cons seg ss)
  then have "\<exists>out. render vs ss = Inr out" by simp
  then obtain out where o: "render vs ss = Inr out" ..
  show ?case
  proof (cases seg)
    case (Lit c)
    with o show ?thesis by simp
  next
    case (Placeholder key)
    with Cons.prems have "getProperty vs key \<noteq> JSObject" by simp
    then obtain v where "replacement vs key = Inr v"
      by (cases "getProperty vs key") (auto simp: replacement_def)
    with o Placeholder show ?thesis by simp
  qed
qed

lemma set_placeholderKeys: "set (placeholderKeys t) = {k. Placeholder k \<in> set (segments t)}"
  by (auto simp: placeholderKeys_def split: segment.splits)

lemma applyVars_ok:
  assumes "\<forall>k \<in> set (placeholderKeys t). k \<in> dom vs \<or> k \<notin> set objectPrototypeKeys"
  shows "\<exists>out. applyVars t vs = Inr out"
  unfolding applyVars_def
proof (rule render_ok, intro allI impI)
  fix k assume "Placeholder k \<in> set (segments t)"
  then have "k \<in> dom vs \<or> k \<notin> set objectPrototypeKeys"
    using assms by (simp add: set_placeholderKeys)
  then show "getProperty vs k \<noteq> JSObject"
    by (auto simp: getProperty_def split: option.splits)
qed

lemma emitBlocks_ok:
  assumes "\<forall>i \<in> set ids. \<forall>m s. fmlookup byId i = Some m \<longrightarrow> script m (os input) = Some s \<longrightarrow>
             (\<exists>out. applyVars s (vars input) = Inr out)"
  shows "\<exists>bs. emitBlocks byId input ids blocks = Inr bs"
  using assms
proof (induction ids arbitrary: blocks)
  case Nil
  show ?case by simp
next
  case (Cons i ids)
  have rest: "\<exists>bs. emitBlocks byId input ids blocks' = Inr bs" for blocks'
    using Cons.IH[of blocks'] Cons.prems by simp
  show ?case
  proof (cases "fmlookup byId i")
    case None
    then show ?thesis using rest by simp
  next
    case (Some m)
    show ?thesis
    proof (cases "script m (os input)")
      case None
      with Some show ?thesis using rest by simp
    next
      case (Some s)
      note sc = this
      show ?thesis
      proof (cases "s = []")
        case True
        with sc \<open>fmlookup byId i = Some m\<close> show ?thesis using rest by simp
      next
        case False
        obtain out where "applyVars s (vars input) = Inr out"
          using Cons.prems sc \<open>fmlookup byId i = Some m\<close> by auto
        with False sc \<open>fmlookup byId i = Some m\<close> show ?thesis using rest by simp
      qed
    qed
  qed
qed

lemma objectPrototypeKeys_git:
  "''git_name'' \<notin> set objectPrototypeKeys" "''git_email'' \<notin> set objectPrototypeKeys"
  by (simp_all add: objectPrototypeKeys_def)

lemma git_config_resolved:
  "resolveWithDeps [''dev.git_config''] mapById =
     [''base.clt'', ''base.homebrew'', ''dev.git'', ''dev.git_config'']"
  by (simp add: resolveWithDeps_def mapById_def mapByIdOf_def MODULES_def requires_or_empty_def dfs.simps)

lemma git_config_templates:
  assumes "i \<in> set [''base.clt'', ''base.homebrew'', ''dev.git'', ''dev.git_config'']"
    and "fmlookup mapById i = Some m" and "script m t = Some s"
  shows "\<forall>k \<in> set (placeholderKeys s). k \<notin> set objectPrototypeKeys"
proof -
  from assms have "s \<in> {base_clt_mac, base_clt_ubuntu, base_homebrew_mac, base_homebrew_ubuntu,
      dev_git_mac, dev_git_ubuntu, dev_git_config_mac, dev_git_config_ubuntu}"
    by (cases t) (auto simp: mapById_def mapByIdOf_def MODULES_def)
  then show ?thesis
    using keys_clt keys_homebrew keys_git keys_git_config objectPrototypeKeys_git by auto
qed

section \<open>The assembly loop\<close>

lemma emitBlocks_append:
  "emitBlocks byId input (pre @ post) blocks =
     (case emitBlocks byId input pre blocks of
        Inl e \<Rightarrow> Inl e
      | Inr before \<Rightarrow> emitBlocks byId input post before)"
  by (induction pre arbitrary: blocks) (simp_all split: option.splits sum.splits)

lemma emitBlocks_acc:
  "emitBlocks byId input ids blocks =
     (case emitBlocks byId input ids [] of Inl e \<Rightarrow> Inl e | Inr new \<Rightarrow> Inr (blocks @ new))"
proof (induction ids arbitrary: blocks)
  case Nil
  show ?case by simp
next
  case (Cons i ids)
  have step: "emitBlocks byId input ids (blocks @ xs) =
      (case emitBlocks byId input ids xs of Inl e \<Rightarrow> Inl e | Inr new \<Rightarrow> Inr (blocks @ new))" for xs
    using Cons.IH[of "blocks @ xs"] Cons.IH[of xs] by (simp split: sum.splits)
  show ?case
    using step[of "[]"] step
    by (simp split: option.splits sum.splits)
qed

lemma generate_skip:
  assumes "uniqueKeepOrder (resolveWithDeps (selectedIds input) byId) = pre @ i # post"
    and "fmlookup byId i = Some m"
    and "script m (os input) = None \<or> script m (os input) = Some []"
  shows "generateScriptWith byId input =
     (case emitBlocks byId input pre [] of
        Inl e \<Rightarrow> Inl e
      | Inr before \<Rightarrow>
          (case emitBlocks byId input post [] of
             Inl e \<Rightarrow> Inl e
           | Inr after \<Rightarrow>
               Inr \<lparr>script_text = join ''\<newline>''
                      ([header (os input)] @ before @ [skipNotice m (os input)] @ after @ [footer]),
                    includedIds = pre @ i # post\<rparr>))"
proof -
  let ?skip = "skipNotice m (os input)"
  have one: "emitBlocks byId input (i # post) bs = emitBlocks byId input post (bs @ [?skip])" for bs
    using assms(2,3) by auto
  have "emitBlocks byId input (pre @ i # post) [header (os input)] =
     (case emitBlocks byId input pre [] of
        Inl e \<Rightarrow> Inl e
      | Inr before \<Rightarrow>
          (case emitBlocks byId input post [] of
             Inl e \<Rightarrow> Inl e
           | Inr after \<Rightarrow> Inr ([header (os input)] @ before @ [?skip] @ after)))"
  proof (cases "emitBlocks byId input pre []")
    case (Inl e)
    then have "emitBlocks byId input pre [header (os input)] = Inl e"
      using emitBlocks_acc[of byId input pre "[header (os input)]"] by simp
    with Inl show ?thesis by (simp add: emitBlocks_append)
  next
    case (Inr before)
    then have p: "emitBlocks byId input pre [header (os input)] = Inr ([header (os input)] @ before)"
      using emitBlocks_acc[of byId input pre "[header (os input)]"] by simp
    have "emitBlocks byId input (pre @ i # post) [header (os input)]
          = emitBlocks byId input (i # post) ([header (os input)] @ before)"
      using p by (simp only: emitBlocks_append sum.case)
    also have "\<dots> = emitBlocks byId input post (([header (os input)] @ before) @ [?skip])"
      by (rule one)
    also have "\<dots> = (case emitBlocks byId input post [] of
             Inl e \<Rightarrow> Inl e
           | Inr after \<Rightarrow> Inr ((([header (os input)] @ before) @ [?skip]) @ after))"
      by (rule emitBlocks_acc)
    finally show ?thesis using Inr by (simp split: sum.splits)
  qed
  then show ?thesis
    using assms(1)
    by (simp add: generateScriptWith_def split: sum.splits)
qed

lemma dfs_cong_requires:
  "(\<forall>j. map_option requires_or_empty (fmlookup byId' j) = map_option requires_or_empty (fmlookup byId j))
     \<Longrightarrow> dfs byId' i s = dfs byId i s"
  "(\<forall>j. map_option requires_or_empty (fmlookup byId' j) = map_option requires_or_empty (fmlookup byId j))
     \<Longrightarrow> dfs_all byId' ds s = dfs_all byId ds s"
proof (induction byId i s and byId ds s rule: dfs_dfs_all.induct)
  case (1 byId i visited out)
  have eq: "map_option requires_or_empty (fmlookup byId' i) = map_option requires_or_empty (fmlookup byId i)"
    using "1.prems" by simp
  show ?case
  proof (cases "i \<in> visited")
    case True
    then show ?thesis by (simp add: dfs.simps)
  next
    case nv: False
    show ?thesis
    proof (cases "fmlookup byId i")
      case None
      with eq have "fmlookup byId' i = None" by simp
      with None nv show ?thesis by (simp add: dfs.simps)
    next
      case (Some m)
      with eq obtain m' where m': "fmlookup byId' i = Some m'" "requires_or_empty m' = requires_or_empty m"
        by auto
      from "1.IH"[OF nv Some "1.prems"] m' Some nv show ?thesis by (simp add: dfs.simps)
    qed
  qed
next
  case (2 byId s)
  show ?case by simp
next
  case (3 byId dep deps s)
  then show ?case by simp
qed

lemma generate_empty_script_as_absent:
  assumes "fmlookup byId i = Some m" and "script m (os input) = Some []"
  shows "generateScriptWith (fmupd i (withoutScript (os input) m) byId) input = generateScriptWith byId input"
proof -
  let ?byId' = "fmupd i (withoutScript (os input) m) byId"
  have rq: "\<forall>j. map_option requires_or_empty (fmlookup ?byId' j) = map_option requires_or_empty (fmlookup byId j)"
    using assms(1) by (auto simp: withoutScript_def requires_or_empty_def)
  have res: "resolveWithDeps ids ?byId' = resolveWithDeps ids byId" for ids
    using dfs_cong_requires(2)[OF rq] by (simp add: resolveWithDeps_def)
  have em: "emitBlocks ?byId' input ids bs = emitBlocks byId input ids bs" for ids bs
  proof (induction ids arbitrary: bs)
    case Nil
    show ?case by simp
  next
    case (Cons j ids)
    show ?case
    proof (cases "j = i")
      case True
      then show ?thesis using assms Cons
        by (simp add: withoutScript_def skipNotice_def)
    next
      case False
      then show ?thesis using Cons by (simp split: option.splits sum.splits)
    qed
  qed
  show ?thesis by (simp add: generateScriptWith_def res em)
qed

section \<open>The scan for placeholders\<close>

lemma brace_not_ident: "\<not> isIdentChar CHR ''{''" "\<not> isIdentChar CHR ''}''"
  by (simp_all add: isIdentChar_def)

lemma matchToken_SomeD:
  assumes "matchToken s = Some (key, rest)"
  shows "s = ''{{'' @ key @ ''}}'' @ rest \<and> isIdentifier key"
proof -
  from assms obtain t where s: "s = CHR ''{'' # CHR ''{'' # t"
    and key: "key = takeWhile isIdentChar t" and ne: "key \<noteq> []"
    and tk: "take 2 (dropWhile isIdentChar t) = ''}}''" and rest: "rest = drop 2 (dropWhile isIdentChar t)"
    by (auto simp: matchToken_def Let_def split: list.splits if_splits)
  have "t = takeWhile isIdentChar t @ dropWhile isIdentChar t" by simp
  also have "dropWhile isIdentChar t = take 2 (dropWhile isIdentChar t) @ drop 2 (dropWhile isIdentChar t)"
    by simp
  finally have "t = key @ ''}}'' @ rest" using key tk rest by simp
  moreover have "\<forall>c \<in> set key. isIdentChar c" unfolding key by (auto dest: set_takeWhileD)
  ultimately show ?thesis using s ne by (simp add: isIdentifier_def)
qed

lemma matchToken_token:
  assumes "isIdentifier key"
  shows "matchToken (''{{'' @ key @ ''}}'' @ post) = Some (key, post)"
proof -
  have all: "\<forall>c \<in> set key. isIdentChar c" and ne: "key \<noteq> []"
    using assms by (simp_all add: isIdentifier_def)
  have tw: "takeWhile isIdentChar (key @ CHR ''}'' # CHR ''}'' # post) = key"
    using all by (simp add: brace_not_ident)
  have dw: "dropWhile isIdentChar (key @ CHR ''}'' # CHR ''}'' # post) = CHR ''}'' # CHR ''}'' # post"
    using all by (simp add: brace_not_ident)
  have "matchToken (CHR ''{'' # CHR ''{'' # key @ CHR ''}'' # CHR ''}'' # post) = Some (key, post)"
    unfolding matchToken_def list.case Let_def tw dw using ne by simp
  then show ?thesis by simp
qed

lemma matchToken_before_token:
  assumes "sfx = CHR ''{'' # CHR ''{'' # zs"
  shows "matchToken ((c # cs) @ sfx) =
           (case matchToken (c # cs) of None \<Rightarrow> None | Some (k, rest) \<Rightarrow> Some (k, rest @ sfx))"
proof (cases "c = CHR ''{''")
  case False
  then show ?thesis using matchToken_needs_brace[of c] by simp
next
  case c: True
  show ?thesis
  proof (cases cs)
    case Nil
    with c assms show ?thesis by (simp add: matchToken_def brace_not_ident)
  next
    case (Cons c2 t0)
    show ?thesis
    proof (cases "c2 = CHR ''{''")
      case False
      with Cons show ?thesis by (simp add: matchToken_def)
    next
      case c2: True
      show ?thesis
      proof (cases "\<forall>x \<in> set t0. isIdentChar x")
        case True
        then have tw: "takeWhile isIdentChar (t0 @ sfx) = t0"
          and dw: "dropWhile isIdentChar (t0 @ sfx) = sfx"
          and dw0: "dropWhile isIdentChar t0 = []"
          using assms by (simp_all add: brace_not_ident)
        have "take 2 sfx \<noteq> ''}}''" using assms by simp
        then have "matchToken (CHR ''{'' # CHR ''{'' # t0 @ sfx) = None"
          unfolding matchToken_def list.case Let_def tw dw by simp
        moreover have "matchToken (CHR ''{'' # CHR ''{'' # t0) = None"
          unfolding matchToken_def list.case Let_def dw0 by simp
        ultimately show ?thesis using c c2 Cons by simp
      next
        case False
        then obtain x where x: "x \<in> set t0" "\<not> isIdentChar x" by auto
        then have tw: "takeWhile isIdentChar (t0 @ sfx) = takeWhile isIdentChar t0"
          and dw: "dropWhile isIdentChar (t0 @ sfx) = dropWhile isIdentChar t0 @ sfx"
          by simp_all
        from False have "dropWhile isIdentChar t0 \<noteq> []" by simp
        then obtain y b where d: "dropWhile isIdentChar t0 = y # b" by (cases "dropWhile isIdentChar t0") auto
        show ?thesis
        proof (cases b)
          case Nil
          with c c2 Cons assms d tw dw show ?thesis by (simp add: matchToken_def)
        next
          case (Cons b0 b1)
          with c c2 \<open>cs = c2 # t0\<close> d tw dw show ?thesis by (simp add: matchToken_def Let_def)
        qed
      qed
    qed
  qed
qed

lemma segments_token:
  assumes "isIdentifier key"
  shows "segments (pre @ ''{{'' @ key @ ''}}'' @ post) = segments pre @ Placeholder key # segments post"
proof (induction pre rule: segments.induct)
  case 1
  have "segments (''{{'' @ key @ ''}}'' @ post) = Placeholder key # segments post"
    using matchToken_token[OF assms, of post] by (simp add: segments.simps(2))
  then show ?case by simp
next
  case (2 c cs)
  let ?sfx = "''{{'' @ key @ ''}}'' @ post"
  have m: "matchToken ((c # cs) @ ?sfx) =
           (case matchToken (c # cs) of None \<Rightarrow> None | Some (k, rest) \<Rightarrow> Some (k, rest @ ?sfx))"
    by (rule matchToken_before_token) simp
  show ?case
  proof (cases "matchToken (c # cs)")
    case None
    with m have "matchToken (c # cs @ ?sfx) = None" by simp
    then have lhs: "segments ((c # cs) @ ?sfx) = Lit c # segments (cs @ ?sfx)"
      by (simp add: segments.simps(2))
    have rhs: "segments (c # cs) = Lit c # segments cs"
      using None by (simp add: segments.simps(2))
    have ih: "segments (cs @ ?sfx) = segments cs @ Placeholder key # segments post"
      using "2.IH"(1)[OF None] .
    show ?thesis unfolding lhs rhs ih by simp
  next
    case (Some a)
    obtain k rest where a: "a = (k, rest)" by (cases a)
    with m Some have "matchToken (c # cs @ ?sfx) = Some (k, rest @ ?sfx)" by simp
    then have lhs: "segments ((c # cs) @ ?sfx) = Placeholder k # segments (rest @ ?sfx)"
      by (simp add: segments.simps(2))
    have rhs: "segments (c # cs) = Placeholder k # segments rest"
      using Some a by (simp add: segments.simps(2))
    have ih: "segments (rest @ ?sfx) = segments rest @ Placeholder key # segments post"
      using "2.IH"(2) Some a by simp
    show ?thesis unfolding lhs rhs ih by simp
  qed
qed

lemma segments_text: "concat (map segment_text (segments t)) = t"
proof (induction t rule: segments.induct)
  case 1
  show ?case by simp
next
  case (2 c cs)
  show ?case
  proof (cases "matchToken (c # cs)")
    case None
    with 2 show ?thesis by (simp add: segments.simps(2))
  next
    case (Some a)
    obtain k rest where a: "a = (k, rest)" by (cases a)
    from matchToken_SomeD[of "c # cs" k rest] Some a
    have eq: "c # cs = ''{{'' @ k @ ''}}'' @ rest" by simp
    have ih: "concat (map segment_text (segments rest)) = rest"
      using "2.IH"(2) Some a by simp
    have "segments (c # cs) = Placeholder k # segments rest"
      using Some a by (simp add: segments.simps(2))
    then have "concat (map segment_text (segments (c # cs))) = ''{{'' @ k @ ''}}'' @ rest"
      using ih by simp
    then show ?thesis using eq by simp
  qed
qed

lemma render_substitute:
  assumes "\<forall>k. Placeholder k \<in> set ss \<longrightarrow> k \<in> dom vs \<or> k \<notin> set objectPrototypeKeys"
  shows "render vs ss = Inr (concat (map (substitute vs) ss))"
  using assms
proof (induction ss)
  case Nil
  show ?case by simp
next
  case (Cons seg ss)
  then have r: "render vs ss = Inr (concat (map (substitute vs) ss))" by simp
  show ?case
  proof (cases seg)
    case (Lit c)
    with r show ?thesis by simp
  next
    case (Placeholder key)
    with Cons.prems have "key \<in> dom vs \<or> key \<notin> set objectPrototypeKeys" by simp
    then have "replacement vs key = Inr (substitute vs (Placeholder key))"
      by (auto simp: replacement_def getProperty_def split: option.splits)
    with r Placeholder show ?thesis by simp
  qed
qed

lemma placeholderKeys_no_brace: "CHR ''{'' \<notin> set t \<Longrightarrow> placeholderKeys t = []"
  by (induction t) (auto simp: placeholderKeys_Nil placeholderKeys_Cons)

lemma set_escape: "set (escapeForDoubleQuotes v) \<subseteq> insert backslash (set v)"
  by (auto simp: escape_single_pass escapeChar_def split: if_splits)


lemma applyVars_substitute:
  assumes "\<forall>k \<in> set (placeholderKeys t). k \<in> dom vs \<or> k \<notin> set objectPrototypeKeys"
  shows "applyVars t vs = Inr (concat (map (substitute vs) (segments t)))"
  unfolding applyVars_def
  by (rule render_substitute) (use assms in \<open>simp add: set_placeholderKeys\<close>)

lemma placeholderKeys_token:
  assumes "isIdentifier key"
  shows "placeholderKeys (pre @ ''{{'' @ key @ ''}}'' @ post) =
           placeholderKeys pre @ key # placeholderKeys post"
  by (simp only: placeholderKeys_def segments_token[OF assms]) simp

lemma applyVars_no_token:
  assumes "placeholderKeys t = []"
  shows "applyVars t vs = Inr t"
proof -
  have lit: "\<forall>seg \<in> set (segments t). \<exists>c. seg = Lit c"
  proof
    fix seg assume mem: "seg \<in> set (segments t)"
    have none: "Placeholder k \<notin> set (segments t)" for k
      using assms set_placeholderKeys[of t] by auto
    show "\<exists>c. seg = Lit c"
    proof (cases seg)
      case (Lit c)
      then show ?thesis by simp
    next
      case (Placeholder k)
      with mem none show ?thesis by simp
    qed
  qed
  then have m: "map (substitute vs) (segments t) = map segment_text (segments t)"
    by (intro map_cong) auto
  have "concat (map (substitute vs) (segments t)) = t"
    unfolding m by (rule segments_text)
  moreover have "applyVars t vs = Inr (concat (map (substitute vs) (segments t)))"
    using assms by (intro applyVars_substitute) simp
  ultimately show ?thesis by simp
qed

lemma substitute_no_brace:
  assumes "\<forall>c. Lit c \<in> set ss \<longrightarrow> c \<noteq> CHR ''{''" and "\<forall>v \<in> ran vs. CHR ''{'' \<notin> set v"
  shows "CHR ''{'' \<notin> set (concat (map (substitute vs) ss))"
proof -
  have "CHR ''{'' \<notin> set (substitute vs seg)" if "seg \<in> set ss" for seg
  proof (cases seg)
    case (Lit c)
    with that assms(1) show ?thesis by auto
  next
    case (Placeholder key)
    let ?v = "case vs key of None \<Rightarrow> [] | Some v \<Rightarrow> v"
    have "CHR ''{'' \<notin> set ?v"
    proof (cases "vs key")
      case None
      then show ?thesis by simp
    next
      case (Some v)
      then have "v \<in> ran vs" by (auto simp: ran_def)
      with assms(2) Some show ?thesis by simp
    qed
    moreover have "CHR ''{'' \<noteq> backslash" by (simp add: backslash_def)
    ultimately have "CHR ''{'' \<notin> set (escapeForDoubleQuotes ?v)" using set_escape[of ?v] by auto
    with Placeholder show ?thesis by simp
  qed
  then show ?thesis by auto
qed

lemma applyVars_small:
  "applyVars ''a '' vs = Inr ''a ''"
  "applyVars '' b{{y}}'' (map_of [(''x'', ''$1'')]) = Inr '' b''"
  by (simp_all add: applyVars_def segments.simps(2) matchToken_def isIdentChar_def replacement_def
      getProperty_def objectPrototypeKeys_def escape_Nil)

text \<open>
  A placeholder whose key is inherited from \<^verbatim>\<open>Object.prototype\<close> and is not a key of the
  variable map makes \<^verbatim>\<open>applyVars\<close> throw.
\<close>

lemma applyVars_inherited_key_throws:
  "applyVars ''{{constructor}}'' (map_of []) = Inl TypeError"
  by (simp add: applyVars_def segments.simps(2) matchToken_def isIdentChar_def replacement_def
      getProperty_def objectPrototypeKeys_def)

lemma chain_rel: "requires_rel chain_index = {(''A'', ''B'')}"
  by (auto simp: requires_rel_def chain_index_def mapByIdOf_def plainModule_def requires_or_empty_def
      split: if_splits)

lemma chain_acyclic: "acyclic (requires_rel chain_index)"
  unfolding chain_rel by (subst acyclic_insert) (simp add: acyclic_def)

section \<open>Properties of the specification\<close>

subsection \<open>Order of the included ids\<close>

text \<open>
  Claim C1, as the code has it. Let \<open>generateScript\<close> return \<open>r\<close>, let the module at
  position \<open>k\<close> of \<open>includedIds r\<close> require \<open>d\<close>, and let \<open>d\<close> be in \<open>includedIds r\<close>
  too. Then \<open>d\<close> stands strictly before position \<open>k\<close>, unless \<open>d\<close> itself requires that
  module through one or more \<^verbatim>\<open>requires\<close> steps, that is, unless the two lie on a
  dependency cycle. On a registry whose requires relation has no cycle, \<open>d\<close> stands
  strictly before position \<open>k\<close>.
\<close>

theorem includedIds_requirement_first:
  assumes "generateScriptWith byId input = Inr r"
    and "k < length (includedIds r)"
    and "fmlookup byId (includedIds r ! k) = Some m"
    and "d \<in> set (requires_or_empty m)"
    and "d \<in> set (includedIds r)"
  shows "((\<exists>j<k. includedIds r ! j = d) \<or> (d, includedIds r ! k) \<in> (requires_rel byId)\<^sup>+) \<and>
         (acyclic (requires_rel byId) \<longrightarrow> (\<exists>j<k. includedIds r ! j = d))"
proof -
  let ?out = "resolveWithDeps (selectedIds input) byId"
  have inc: "includedIds r = ?out" using assms(1) by (rule generateScriptWith_includedIds)
  have dk: "d \<in> fmdom' byId" using assms(5) inc resolve_in_index by simp
  have edge: "(?out ! k, d) \<in> requires_rel byId"
    using assms(3,4) inc by (auto simp: requires_rel_def)
  have "d \<in> set (take k ?out) \<or> (d, ?out ! k) \<in> (requires_rel byId)\<^sup>*"
    using resolve_placed[of byId "selectedIds input"] assms(2,3,4) dk inc
    unfolding placed_def by auto
  then have main: "(\<exists>j<k. includedIds r ! j = d) \<or> (d, includedIds r ! k) \<in> (requires_rel byId)\<^sup>+"
  proof
    assume "d \<in> set (take k ?out)"
    then obtain j where "j < length (take k ?out)" "take k ?out ! j = d"
      by (auto simp: in_set_conv_nth)
    then have "j < k" "?out ! j = d" by simp_all
    then show ?thesis using inc by auto
  next
    assume star: "(d, ?out ! k) \<in> (requires_rel byId)\<^sup>*"
    then have "(d, ?out ! k) \<in> (requires_rel byId)\<^sup>+"
      using edge by (metis rtranclD r_into_trancl')
    then show ?thesis using inc by simp
  qed
  have "\<exists>j<k. includedIds r ! j = d" if ac: "acyclic (requires_rel byId)"
  proof (rule ccontr)
    assume "\<not> (\<exists>j<k. includedIds r ! j = d)"
    with main have "(d, ?out ! k) \<in> (requires_rel byId)\<^sup>+" using inc by auto
    then have "(d, d) \<in> (requires_rel byId)\<^sup>+" using edge by (rule trancl_into_trancl)
    with ac show False by (simp add: acyclic_def)
  qed
  with main show ?thesis by blast
qed

text \<open>The chain, which has no cycle: A at position 1 requires B, and B stands at position 0.\<close>

theorem includedIds_requirement_first_witness:
  "generateScriptWith chain_index select_A = Inr result_B_A \<and>
   1 < length (includedIds result_B_A) \<and>
   fmlookup chain_index (includedIds result_B_A ! 1) = Some (plainModule ''A'' (Some [''B''])) \<and>
   ''B'' \<in> set (requires_or_empty (plainModule ''A'' (Some [''B'']))) \<and>
   ''B'' \<in> set (includedIds result_B_A) \<and>
   acyclic (requires_rel chain_index) \<and>
   (\<exists>j<1. includedIds result_B_A ! j = ''B'')"
proof -
  have h2: "1 < length (includedIds result_B_A)" by (simp add: result_B_A_def)
  have h3: "fmlookup chain_index (includedIds result_B_A ! 1) = Some (plainModule ''A'' (Some [''B'']))"
    by (simp add: result_B_A_def chain_index_def mapByIdOf_def plainModule_def)
  have h4: "''B'' \<in> set (requires_or_empty (plainModule ''A'' (Some [''B''])))"
    by (simp add: requires_or_empty_def plainModule_def)
  have h5: "''B'' \<in> set (includedIds result_B_A)" by (simp add: result_B_A_def)
  show ?thesis
    using includedIds_requirement_first[OF chain_run h2 h3 h4 h5] chain_run h2 h3 h4 h5 chain_acyclic
    by blast
qed

text \<open>
  Claim C1 as stated, for every registry, fails on the cycle: selecting A yields
  \<open>[B, A]\<close>, where B requires A and A stands after B.
\<close>

theorem includedIds_order_broken_by_cycle:
  "map_sum id includedIds (generateScriptWith cycle_index select_A) = Inr [''B'', ''A''] \<and>
   map_option requires_or_empty (fmlookup cycle_index ''B'') = Some [''A'']"
proof
  show "map_sum id includedIds (generateScriptWith cycle_index select_A) = Inr [''B'', ''A'']"
    by (rule cycle_ids)
  show "map_option requires_or_empty (fmlookup cycle_index ''B'') = Some [''A'']"
    by (simp add: cycle_index_def mapByIdOf_def plainModule_def requires_or_empty_def)
qed

subsection \<open>Dependency closure\<close>

text \<open>
  Claim C2. The \<open>includedIds\<close> that \<open>generateScript\<close> returns are exactly the keys of
  the index that a selected id reaches through zero or more \<^verbatim>\<open>requires\<close> steps: every
  module of the index that is selected or transitively required by a selected id is
  included, and nothing else is.
\<close>

theorem includedIds_dependency_closure:
  assumes "generateScriptWith byId input = Inr r"
  shows "set (includedIds r) =
           {d \<in> fmdom' byId. \<exists>s \<in> set (selectedIds input). (s, d) \<in> (requires_rel byId)\<^sup>*}"
proof -
  have inc: "includedIds r = resolveWithDeps (selectedIds input) byId"
    using assms by (rule generateScriptWith_includedIds)
  show ?thesis unfolding inc using resolve_sound resolve_closed by blast
qed

text \<open>The chain: A is selected and requires B, a key of the index, so B is included.\<close>

theorem includedIds_dependency_closure_witness:
  "generateScriptWith chain_index select_A = Inr result_B_A \<and>
   ''B'' \<in> fmdom' chain_index \<and>
   ''A'' \<in> set (selectedIds select_A) \<and>
   (''A'', ''B'') \<in> (requires_rel chain_index)\<^sup>* \<and>
   ''B'' \<in> set (includedIds result_B_A)"
proof -
  have h2: "''A'' \<in> set (selectedIds select_A)" by (simp add: select_A_def)
  have h3: "(''A'', ''B'') \<in> (requires_rel chain_index)\<^sup>*" using chain_edge by blast
  have h4: "''B'' \<in> fmdom' chain_index"
    by (simp add: chain_index_def mapByIdOf_def plainModule_def)
  show ?thesis
    using includedIds_dependency_closure[OF chain_run] chain_run h2 h3 h4 by blast
qed

subsection \<open>Cycles\<close>

text \<open>
  Claim C3. The recursion of \<open>resolveWithDeps\<close> is well-founded at every index and
  every selection, so the call returns; and when A requires B, B requires A and A is
  selected, the result holds A exactly once and B exactly once. The function has no
  error result.
\<close>

theorem resolveWithDeps_cycle_safe:
  "dfs_dfs_all_dom (Inr (byId, ids, ({}, []))) \<and>
   (fmlookup byId a = Some ma \<and> b \<in> set (requires_or_empty ma) \<and>
    fmlookup byId b = Some mb \<and> a \<in> set (requires_or_empty mb) \<and> a \<in> set ids \<longrightarrow>
    count_list (resolveWithDeps ids byId) a = 1 \<and> count_list (resolveWithDeps ids byId) b = 1)"
proof (intro conjI impI)
  show "dfs_dfs_all_dom (Inr (byId, ids, ({}, [])))" using dfs_terminates by simp
next
  assume h: "fmlookup byId a = Some ma \<and> b \<in> set (requires_or_empty ma) \<and>
    fmlookup byId b = Some mb \<and> a \<in> set (requires_or_empty mb) \<and> a \<in> set ids"
  then have ain: "a \<in> set (resolveWithDeps ids byId)"
    using resolve_closed[of a ids a byId] by (simp add: fmdom'I)
  then show "count_list (resolveWithDeps ids byId) a = 1"
    by (simp add: count_list_distinct resolve_frame(1))
next
  assume h: "fmlookup byId a = Some ma \<and> b \<in> set (requires_or_empty ma) \<and>
    fmlookup byId b = Some mb \<and> a \<in> set (requires_or_empty mb) \<and> a \<in> set ids"
  then have "(a, b) \<in> requires_rel byId" by (auto simp: requires_rel_def)
  then have "(a, b) \<in> (requires_rel byId)\<^sup>*" by blast
  with h have "b \<in> set (resolveWithDeps ids byId)"
    using resolve_closed[of a ids b byId] by (simp add: fmdom'I)
  then show "count_list (resolveWithDeps ids byId) b = 1"
    by (simp add: count_list_distinct resolve_frame(1))
qed

theorem resolveWithDeps_cycle_safe_witness:
  "fmlookup cycle_index ''A'' = Some (plainModule ''A'' (Some [''B''])) \<and>
   ''B'' \<in> set (requires_or_empty (plainModule ''A'' (Some [''B'']))) \<and>
   fmlookup cycle_index ''B'' = Some (plainModule ''B'' (Some [''A''])) \<and>
   ''A'' \<in> set (requires_or_empty (plainModule ''B'' (Some [''A'']))) \<and>
   ''A'' \<in> set [''A''] \<and>
   resolveWithDeps [''A''] cycle_index = [''B'', ''A''] \<and>
   count_list (resolveWithDeps [''A''] cycle_index) ''A'' = 1 \<and>
   count_list (resolveWithDeps [''A''] cycle_index) ''B'' = 1"
proof -
  have h: "fmlookup cycle_index ''A'' = Some (plainModule ''A'' (Some [''B''])) \<and>
   ''B'' \<in> set (requires_or_empty (plainModule ''A'' (Some [''B'']))) \<and>
   fmlookup cycle_index ''B'' = Some (plainModule ''B'' (Some [''A''])) \<and>
   ''A'' \<in> set (requires_or_empty (plainModule ''B'' (Some [''A'']))) \<and>
   ''A'' \<in> set [''A'']"
    by (simp add: cycle_index_def mapByIdOf_def plainModule_def requires_or_empty_def)
  have r: "resolveWithDeps [''A''] cycle_index = [''B'', ''A'']"
    by (simp add: run_simps cycle_index_def)
  show ?thesis
    using resolveWithDeps_cycle_safe[of cycle_index "[''A'']" "''A''" "plainModule ''A'' (Some [''B''])"
        "''B''" "plainModule ''B'' (Some [''A''])"] h r by blast
qed

subsection \<open>No duplicates\<close>

text \<open>
  Claim C4. The \<open>includedIds\<close> that \<open>generateScript\<close> returns holds no id twice. On
  every list, \<open>uniqueKeepOrder\<close> keeps the first occurrence of each id in first-seen
  order and drops the later ones (\<open>keepFirst\<close>), returns a list without duplicates and
  with the same elements, and changes nothing when run a second time.
\<close>

theorem includedIds_no_duplicates:
  "(generateScriptWith byId input = Inr r \<longrightarrow> distinct (includedIds r)) \<and>
   uniqueKeepOrder xs = keepFirst xs \<and>
   distinct (uniqueKeepOrder xs) \<and>
   set (uniqueKeepOrder xs) = set xs \<and>
   uniqueKeepOrder (uniqueKeepOrder xs) = uniqueKeepOrder xs"
proof (intro conjI impI)
  assume "generateScriptWith byId input = Inr r"
  then show "distinct (includedIds r)"
    by (simp add: generateScriptWith_includedIds resolve_frame(1))
qed (simp_all add: uniqueKeepOrder_keepFirst distinct_keepFirst set_keepFirst keepFirst_distinct_id)

theorem includedIds_no_duplicates_witness:
  "generateScriptWith chain_index select_A_A_B = Inr result_B_A \<and> distinct (includedIds result_B_A)"
proof -
  have run: "generateScriptWith chain_index select_A_A_B = Inr result_B_A"
    by (simp add: run_simps chain_index_def select_A_A_B_def result_B_A_def)
  show ?thesis
    using includedIds_no_duplicates[of chain_index select_A_A_B result_B_A] run by blast
qed

subsection \<open>Unknown references\<close>

text \<open>
  Claim C5. Let \<open>u\<close> be an id that is not a key of the index. Visiting \<open>u\<close> only marks
  it visited: nothing is appended and no requirement is followed. \<open>u\<close> is never in the
  \<open>includedIds\<close> returned. And the whole result of \<open>generateScript\<close> (script and
  included ids, or the error) is the same for any other request and index that differ
  from the given ones only in occurrences of \<open>u\<close> in the selection and in the
  \<^verbatim>\<open>requires\<close> lists, in particular with some or all of these occurrences removed.
\<close>

theorem unknown_reference_tolerance:
  assumes "u \<notin> fmdom' byId"
    and "filter (\<lambda>d. d \<noteq> u) ids' = filter (\<lambda>d. d \<noteq> u) (selectedIds input)"
    and "withoutReference u byId' = withoutReference u byId"
  shows "generateScriptWith byId' (input\<lparr>selectedIds := ids'\<rparr>) = generateScriptWith byId input \<and>
         (\<forall>r. generateScriptWith byId input = Inr r \<longrightarrow> u \<notin> set (includedIds r)) \<and>
         dfs byId u (visited, out) = (insert u visited, out)"
proof (intro conjI allI impI)
  have u': "u \<notin> fmdom' byId'"
    using assms(1,3) fmdom'_withoutReference by metis
  have "generateScriptWith byId' (input\<lparr>selectedIds := ids'\<rparr>)
        = generateScriptWith (withoutReference u byId')
            (input\<lparr>selectedIds := filter (\<lambda>d. d \<noteq> u) ids'\<rparr>)"
    using generate_without_reference[OF u', of "input\<lparr>selectedIds := ids'\<rparr>"] by simp
  also have "\<dots> = generateScriptWith (withoutReference u byId)
            (input\<lparr>selectedIds := filter (\<lambda>d. d \<noteq> u) (selectedIds input)\<rparr>)"
    using assms(2,3) by simp
  also have "\<dots> = generateScriptWith byId input"
    by (rule generate_without_reference[OF assms(1)])
  finally show "generateScriptWith byId' (input\<lparr>selectedIds := ids'\<rparr>) = generateScriptWith byId input" .
next
  fix r assume "generateScriptWith byId input = Inr r"
  then have "includedIds r = resolveWithDeps (selectedIds input) byId"
    by (rule generateScriptWith_includedIds)
  then show "u \<notin> set (includedIds r)" using assms(1) resolve_in_index by auto
next
  show "dfs byId u (visited, out) = (insert u visited, out)" using assms(1) by (rule dfs_unknown)
qed

text \<open>
  The id \<open>ghost\<close>, selected and required by A, against the same registry and selection
  without it.
\<close>

theorem unknown_reference_tolerance_witness:
  "''ghost'' \<notin> fmdom' ghost_index \<and>
   filter (\<lambda>d. d \<noteq> ''ghost'') [''A''] = filter (\<lambda>d. d \<noteq> ''ghost'') (selectedIds select_ghost_A) \<and>
   withoutReference ''ghost'' chain_index = withoutReference ''ghost'' ghost_index \<and>
   generateScriptWith chain_index (select_ghost_A\<lparr>selectedIds := [''A'']\<rparr>) = Inr result_B_A \<and>
   generateScriptWith ghost_index select_ghost_A = Inr result_B_A"
proof -
  have h1: "''ghost'' \<notin> fmdom' ghost_index"
    by (simp add: ghost_index_def mapByIdOf_def plainModule_def)
  have h2: "filter (\<lambda>d. d \<noteq> ''ghost'') [''A''] = filter (\<lambda>d. d \<noteq> ''ghost'') (selectedIds select_ghost_A)"
    by (simp add: select_ghost_A_def)
  have h3: "withoutReference ''ghost'' chain_index = withoutReference ''ghost'' ghost_index"
    by (rule fmap_ext)
      (simp add: withoutReference_def dropReference_def chain_index_def ghost_index_def
        mapByIdOf_def plainModule_def)
  have run: "generateScriptWith chain_index (select_ghost_A\<lparr>selectedIds := [''A'']\<rparr>) = Inr result_B_A"
    by (simp add: run_simps chain_index_def select_ghost_A_def result_B_A_def)
  show ?thesis
    using unknown_reference_tolerance[OF h1 h2 h3] h1 h2 h3 run by simp
qed

subsection \<open>The shipped registry\<close>

text \<open>
  Claim C6. On the registry \<open>MODULES\<close>, for either OS and every variable map, a request
  that selects \<open>dev.git_config\<close> returns a result, and its \<open>includedIds\<close> is base.clt,
  base.homebrew, dev.git, dev.git_config in this order.
\<close>

theorem git_config_includedIds:
  "\<exists>r. generateScript \<lparr>os = t, selectedIds = [''dev.git_config''], vars = vs\<rparr> = Inr r \<and>
       includedIds r = [''base.clt'', ''base.homebrew'', ''dev.git'', ''dev.git_config'']"
proof -
  let ?input = "\<lparr>os = t, selectedIds = [''dev.git_config''], vars = vs\<rparr>"
  let ?ids = "[''base.clt'', ''base.homebrew'', ''dev.git'', ''dev.git_config'']"
  have ord: "uniqueKeepOrder (resolveWithDeps (selectedIds ?input) mapById) = ?ids"
    by (simp add: git_config_resolved uniqueKeepOrder_keepFirst)
  have "\<exists>bs. emitBlocks mapById ?input ?ids [header (os ?input)] = Inr bs"
  proof (rule emitBlocks_ok, intro ballI allI impI)
    fix i m s
    assume "i \<in> set ?ids" "fmlookup mapById i = Some m" "script m (os ?input) = Some s"
    then have "\<forall>k \<in> set (placeholderKeys s). k \<notin> set objectPrototypeKeys"
      using git_config_templates[of i m t s] by simp
    then show "\<exists>out. applyVars s (vars ?input) = Inr out"
      by (intro applyVars_ok) auto
  qed
  then obtain bs where "emitBlocks mapById ?input ?ids [header (os ?input)] = Inr bs" ..
  with ord show ?thesis
    by (simp add: generateScript_def generateScriptWith_def)
qed

subsection \<open>Substitution\<close>

text \<open>
  Claim C7, as the code has it. Let no placeholder of the template have a key that is
  inherited from \<^verbatim>\<open>Object.prototype\<close> without being a key of the variable map. Then
  \<open>applyVars\<close> returns a string. Every token \<^verbatim>\<open>{{key}}\<close> of the template, wherever it
  stands, is replaced by the escaped value of \<open>key\<close>, or by the empty string when the
  map has no such key, and the text before and after it is substituted on its own. A
  template without a token is returned as it is. The result is not scanned again: it
  holds no token when neither the text outside the tokens nor any value contains an
  opening brace.
\<close>

theorem applyVars_replaces_tokens:
  assumes "\<forall>k \<in> set (placeholderKeys template). k \<in> dom vs \<or> k \<notin> set objectPrototypeKeys"
  shows "(\<exists>out. applyVars template vs = Inr out) \<and>
         (\<forall>pre key post.
            isIdentifier key \<and> template = pre @ ''{{'' @ key @ ''}}'' @ post \<longrightarrow>
            (\<exists>a b. applyVars pre vs = Inr a \<and> applyVars post vs = Inr b \<and>
                   applyVars template vs =
                     Inr (a @ escapeForDoubleQuotes (case vs key of None \<Rightarrow> [] | Some v \<Rightarrow> v) @ b))) \<and>
         (placeholderKeys template = [] \<longrightarrow> applyVars template vs = Inr template) \<and>
         ((\<forall>c. Lit c \<in> set (segments template) \<longrightarrow> c \<noteq> CHR ''{'') \<and>
          (\<forall>v \<in> ran vs. CHR ''{'' \<notin> set v) \<longrightarrow>
            (\<exists>out. applyVars template vs = Inr out \<and> placeholderKeys out = []))"
proof (intro conjI allI impI)
  show "\<exists>out. applyVars template vs = Inr out"
    using applyVars_substitute[OF assms] by simp
next
  fix pre key post
  assume h: "isIdentifier key \<and> template = pre @ ''{{'' @ key @ ''}}'' @ post"
  then have keys: "placeholderKeys template = placeholderKeys pre @ key # placeholderKeys post"
    using placeholderKeys_token by simp
  have a: "applyVars pre vs = Inr (concat (map (substitute vs) (segments pre)))"
    using assms keys by (intro applyVars_substitute) simp
  have b: "applyVars post vs = Inr (concat (map (substitute vs) (segments post)))"
    using assms keys by (intro applyVars_substitute) simp
  have "segments template = segments pre @ Placeholder key # segments post"
    using h segments_token by simp
  then have "applyVars template vs =
      Inr (concat (map (substitute vs) (segments pre)) @
           escapeForDoubleQuotes (case vs key of None \<Rightarrow> [] | Some v \<Rightarrow> v) @
           concat (map (substitute vs) (segments post)))"
    using applyVars_substitute[OF assms] by simp
  with a b show "\<exists>a b. applyVars pre vs = Inr a \<and> applyVars post vs = Inr b \<and>
       applyVars template vs =
         Inr (a @ escapeForDoubleQuotes (case vs key of None \<Rightarrow> [] | Some v \<Rightarrow> v) @ b)"
    by blast
next
  assume "placeholderKeys template = []"
  then show "applyVars template vs = Inr template" by (rule applyVars_no_token)
next
  assume h: "(\<forall>c. Lit c \<in> set (segments template) \<longrightarrow> c \<noteq> CHR ''{'') \<and>
          (\<forall>v \<in> ran vs. CHR ''{'' \<notin> set v)"
  then have "CHR ''{'' \<notin> set (concat (map (substitute vs) (segments template)))"
    using substitute_no_brace by blast
  then have "placeholderKeys (concat (map (substitute vs) (segments template))) = []"
    by (rule placeholderKeys_no_brace)
  then show "\<exists>out. applyVars template vs = Inr out \<and> placeholderKeys out = []"
    using applyVars_substitute[OF assms] by simp
qed

theorem applyVars_replaces_tokens_witness:
  "placeholderKeys ''a {{x}} b{{y}}'' = [''x'', ''y''] \<and>
   ''x'' \<in> dom (map_of [(''x'', ''$1'')]) \<and>
   ''y'' \<notin> set objectPrototypeKeys \<and>
   isIdentifier ''x'' \<and>
   applyVars ''a {{x}} b{{y}}'' (map_of [(''x'', ''$1'')]) = Inr (''a '' @ [backslash] @ ''$1 b'')"
proof -
  let ?vs = "map_of [(''x'', ''$1'')]"
  have k: "placeholderKeys ''a {{x}} b{{y}}'' = [''x'', ''y'']"
    by (simp add: scan_simps)
  have x: "''x'' \<in> dom ?vs" by simp
  have y: "''y'' \<notin> set objectPrototypeKeys" by (simp add: objectPrototypeKeys_def)
  have safe: "\<forall>k \<in> set (placeholderKeys ''a {{x}} b{{y}}''). k \<in> dom ?vs \<or> k \<notin> set objectPrototypeKeys"
    using k x y by simp
  have i: "isIdentifier ''x''" by (simp add: isIdentifier_def isIdentChar_def)
  have split: "''a {{x}} b{{y}}'' = ''a '' @ ''{{'' @ ''x'' @ ''}}'' @ '' b{{y}}''" by simp
  have e: "escapeForDoubleQuotes ''$1'' = [backslash] @ ''$1''"
    by (simp add: escape_Cons escape_Nil escapeChar_def isSpecial_def backslash_def dquote_def
        dollar_def backtick_def)
  from applyVars_replaces_tokens[OF safe] i split
  obtain a b where "applyVars ''a '' ?vs = Inr a" "applyVars '' b{{y}}'' ?vs = Inr b"
    "applyVars ''a {{x}} b{{y}}'' ?vs =
       Inr (a @ escapeForDoubleQuotes (case ?vs ''x'' of None \<Rightarrow> [] | Some v \<Rightarrow> v) @ b)"
    by blast
  then have "applyVars ''a {{x}} b{{y}}'' ?vs = Inr (''a '' @ [backslash] @ ''$1 b'')"
    using applyVars_small e by simp
  with k x y i show ?thesis by blast
qed

text \<open>
  Claim C7 as stated, that no token remains in the output, fails: the text around a
  replaced token can form a token, and so can a value.
\<close>

theorem applyVars_output_holds_token:
  "applyVars ''{{{{a}}b}}'' (map_of []) = Inr ''{{b}}'' \<and>
   applyVars ''{{a}}'' (map_of [(''a'', ''{{b}}'')]) = Inr ''{{b}}'' \<and>
   placeholderKeys ''{{b}}'' = [''b'']"
  by (simp add: scan_simps applyVars_def segments.simps(2) replacement_def
      getProperty_def objectPrototypeKeys_def escape_Nil escape_Cons escapeChar_def isSpecial_def
      backslash_def dquote_def dollar_def backtick_def)

subsection \<open>Escaping\<close>

text \<open>
  Claim C8. The four replacements of \<open>escapeForDoubleQuotes\<close>, run in the order of the
  source (backslash, double quote, dollar sign, backtick), amount to one pass that puts
  a backslash before each of these characters and leaves every other character alone:
  no backslash added by one step is escaped again by another. Inside a double-quoted
  word the shell reads the escaped value back as exactly the original characters, with
  no quote ended and no expansion started.
\<close>

theorem escapeForDoubleQuotes_correct:
  "escapeForDoubleQuotes v =
     replaceAll backtick [backslash, backtick]
       (replaceAll dollar [backslash, dollar]
         (replaceAll dquote [backslash, dquote]
           (replaceAll backslash [backslash, backslash] v))) \<and>
   escapeForDoubleQuotes v = concat (map escapeChar v) \<and>
   shellDoubleQuoted (escapeForDoubleQuotes v) = Some v"
  using escape_single_pass shell_escape by (simp add: escapeForDoubleQuotes_def)

subsection \<open>Modules without a fragment for the requested OS\<close>

text \<open>
  Claim C9. Let \<open>i\<close> stand in the resolved order, between the ids \<open>pre\<close> and \<open>post\<close>,
  and let its module have no script for the requested OS. Then the blocks of the
  result are the header, the blocks of \<open>pre\<close>, the one line
  \<^verbatim>\<open>echo "[SKIP] <name> (not supported on <os>)"\<close>, the blocks of \<open>post\<close> and the footer:
  no banner and no fragment for \<open>i\<close>, the loop goes on with \<open>post\<close>, and \<open>i\<close> keeps
  its place in \<open>includedIds\<close>. The call fails only where a fragment of \<open>pre\<close> or
  \<open>post\<close> does.
\<close>

theorem unsupported_os_skipped:
  assumes \<open>uniqueKeepOrder (resolveWithDeps (selectedIds input) byId) = pre @ i # post\<close>
    and \<open>fmlookup byId i = Some m\<close>
    and \<open>script m (os input) = None\<close>
  shows \<open>generateScriptWith byId input =
     (case emitBlocks byId input pre [] of
        Inl e \<Rightarrow> Inl e
      | Inr before \<Rightarrow>
          (case emitBlocks byId input post [] of
             Inl e \<Rightarrow> Inl e
           | Inr after \<Rightarrow>
               Inr \<lparr>script_text = join ''\<newline>''
                      ([header (os input)] @ before @
                       [''echo "[SKIP] '' @ name m @ '' (not supported on '' @ os_text (os input) @ '')"''] @
                       after @ [footer]),
                    includedIds = pre @ i # post\<rparr>))\<close>
  by (rule generate_skip[unfolded skipNotice_def, OF assms(1,2)]) (simp add: assms(3))

theorem unsupported_os_skipped_witness:
  \<open>uniqueKeepOrder (resolveWithDeps (selectedIds select_A) chain_index) = [''B''] @ ''A'' # [] \<and>
   fmlookup chain_index ''A'' = Some (plainModule ''A'' (Some [''B''])) \<and>
   script (plainModule ''A'' (Some [''B''])) (os select_A) = None \<and>
   generateScriptWith chain_index select_A =
     Inr \<lparr>script_text = join ''\<newline>''
            [header mac, ''echo "[SKIP] B (not supported on mac)"'',
             ''echo "[SKIP] A (not supported on mac)"'', footer],
          includedIds = [''B'', ''A'']\<rparr>\<close>
proof -
  have h1: \<open>uniqueKeepOrder (resolveWithDeps (selectedIds select_A) chain_index) = [''B''] @ ''A'' # []\<close>
    by (simp add: run_simps chain_index_def select_A_def)
  have h2: \<open>fmlookup chain_index ''A'' = Some (plainModule ''A'' (Some [''B'']))\<close>
    by (simp add: chain_index_def mapByIdOf_def plainModule_def)
  have h3: \<open>script (plainModule ''A'' (Some [''B''])) (os select_A) = None\<close>
    by (simp add: plainModule_def)
  have b: \<open>emitBlocks chain_index select_A [''B''] [] = Inr [''echo "[SKIP] B (not supported on mac)"'']\<close>
    by (simp add: chain_index_def mapByIdOf_def plainModule_def select_A_def skipNotice_def)
  show ?thesis
    using unsupported_os_skipped[OF h1 h2 h3] h1 h2 h3 b
    by (simp add: plainModule_def select_A_def)
qed

text \<open>
  Claim C10. A script entry for the requested OS that is the empty string is handled
  like an absent entry: the same one skip line, no banner and no fragment, the id still
  in \<open>includedIds\<close>; and the result is the result for the index in which that entry
  has been removed.
\<close>

theorem empty_fragment_skipped:
  assumes \<open>uniqueKeepOrder (resolveWithDeps (selectedIds input) byId) = pre @ i # post\<close>
    and \<open>fmlookup byId i = Some m\<close>
    and \<open>script m (os input) = Some []\<close>
  shows \<open>generateScriptWith byId input =
     (case emitBlocks byId input pre [] of
        Inl e \<Rightarrow> Inl e
      | Inr before \<Rightarrow>
          (case emitBlocks byId input post [] of
             Inl e \<Rightarrow> Inl e
           | Inr after \<Rightarrow>
               Inr \<lparr>script_text = join ''\<newline>''
                      ([header (os input)] @ before @
                       [''echo "[SKIP] '' @ name m @ '' (not supported on '' @ os_text (os input) @ '')"''] @
                       after @ [footer]),
                    includedIds = pre @ i # post\<rparr>)) \<and>
    generateScriptWith byId input =
      generateScriptWith (fmupd i (withoutScript (os input) m) byId) input\<close>
proof
  show \<open>generateScriptWith byId input =
     (case emitBlocks byId input pre [] of
        Inl e \<Rightarrow> Inl e
      | Inr before \<Rightarrow>
          (case emitBlocks byId input post [] of
             Inl e \<Rightarrow> Inl e
           | Inr after \<Rightarrow>
               Inr \<lparr>script_text = join ''\<newline>''
                      ([header (os input)] @ before @
                       [''echo "[SKIP] '' @ name m @ '' (not supported on '' @ os_text (os input) @ '')"''] @
                       after @ [footer]),
                    includedIds = pre @ i # post\<rparr>))\<close>
    by (rule generate_skip[unfolded skipNotice_def, OF assms(1,2)]) (simp add: assms(3))
  show "generateScriptWith byId input =
      generateScriptWith (fmupd i (withoutScript (os input) m) byId) input"
    using generate_empty_script_as_absent[OF assms(2,3)] by simp
qed

theorem empty_fragment_skipped_witness:
  \<open>uniqueKeepOrder (resolveWithDeps (selectedIds select_A) empty_script_index) = [''B''] @ ''A'' # [] \<and>
   fmlookup empty_script_index ''A'' =
     Some \<lparr>mod_id = ''A'', name = ''A'', requires = Some [''B''], script = [mac \<mapsto> []]\<rparr> \<and>
   script \<lparr>mod_id = ''A'', name = ''A'', requires = Some [''B''], script = [mac \<mapsto> []]\<rparr> (os select_A)
     = Some [] \<and>
   generateScriptWith empty_script_index select_A =
     Inr \<lparr>script_text = join ''\<newline>''
            [header mac, ''echo "[SKIP] B (not supported on mac)"'',
             ''echo "[SKIP] A (not supported on mac)"'', footer],
          includedIds = [''B'', ''A'']\<rparr>\<close>
proof -
  let ?A = \<open>\<lparr>mod_id = ''A'', name = ''A'', requires = Some [''B''], script = [mac \<mapsto> []]\<rparr>\<close>
  have h1: \<open>uniqueKeepOrder (resolveWithDeps (selectedIds select_A) empty_script_index) = [''B''] @ ''A'' # []\<close>
    by (simp add: run_simps empty_script_index_def select_A_def)
  have h2: \<open>fmlookup empty_script_index ''A'' = Some ?A\<close>
    by (simp add: empty_script_index_def mapByIdOf_def plainModule_def)
  have h3: \<open>script ?A (os select_A) = Some []\<close>
    by (simp add: select_A_def)
  have b: \<open>emitBlocks empty_script_index select_A [''B''] [] = Inr [''echo "[SKIP] B (not supported on mac)"'']\<close>
    by (simp add: empty_script_index_def mapByIdOf_def plainModule_def select_A_def skipNotice_def)
  show ?thesis
    using empty_fragment_skipped[OF h1 h2 h3] h1 h2 h3 b
    by (simp add: select_A_def)
qed

end
